theory Spec2Isabelle
  imports Main "HOL-Library.Finite_Map" "HOL-Library.Sublist"
begin

section \<open>Adjacency structure (internal/module/graph/inmemory\_adjacentmatrix.go)\<close>

text \<open>
  A vertex is the identity tuple of a module. Go compares the struct field by field, so
  a record with four string fields has the same equality.
\<close>

record Vertex =
  Namespace :: string
  Name :: string
  Type :: string
  Version :: string

text \<open>
  The in-memory matrix is \<^verbatim>\<open>map[string]map[Vertex][]Vertex\<close>. Go maps are
  finite, so both levels are finite maps. The mutex is not modelled: every operation is
  taken as one atomic step. A nil slice and an empty slice are both the empty list.
\<close>

type_synonym inMemoryAdjacentMatrix = "(string, (Vertex, Vertex list) fmap) fmap"

definition NewInMemoryAdjacentMatrix :: inMemoryAdjacentMatrix where
  "NewInMemoryAdjacentMatrix = fmempty"

text \<open>
  \<^verbatim>\<open>matrix, ok := a.m[name]; if !ok { matrix = {}; a.m[name] = matrix }\<close>
  followed by \<^verbatim>\<open>matrix[p] = append(matrix[p], c)\<close>. Reading a missing key of the
  inner map gives the nil slice.
\<close>

definition AddEdge :: "inMemoryAdjacentMatrix \<Rightarrow> string \<Rightarrow> Vertex \<Rightarrow> Vertex \<Rightarrow> inMemoryAdjacentMatrix" where
  "AddEdge a name p c =
     (let matrix = (case fmlookup a name of None \<Rightarrow> fmempty | Some mx \<Rightarrow> mx);
          old = (case fmlookup matrix p of None \<Rightarrow> [] | Some cs \<Rightarrow> cs)
      in fmupd name (fmupd p (old @ [c]) matrix) a)"

definition AddEdges :: "inMemoryAdjacentMatrix \<Rightarrow> string \<Rightarrow> Vertex \<Rightarrow> Vertex list \<Rightarrow> inMemoryAdjacentMatrix" where
  "AddEdges a name p c =
     (let matrix = (case fmlookup a name of None \<Rightarrow> fmempty | Some mx \<Rightarrow> mx);
          old = (case fmlookup matrix p of None \<Rightarrow> [] | Some cs \<Rightarrow> cs)
      in fmupd name (fmupd p (old @ c) matrix) a)"

definition Get :: "inMemoryAdjacentMatrix \<Rightarrow> string \<Rightarrow> Vertex \<Rightarrow> Vertex list" where
  "Get a name v =
     (case fmlookup a name of
        None \<Rightarrow> []
      | Some matrix \<Rightarrow> (case fmlookup matrix v of None \<Rightarrow> [] | Some cs \<Rightarrow> cs))"

text \<open>\<^verbatim>\<open>len(a.m[name])\<close>: the number of keys of the inner map, zero for a missing name.\<close>

definition NumberOfEdges :: "inMemoryAdjacentMatrix \<Rightarrow> string \<Rightarrow> nat" where
  "NumberOfEdges a name =
     (case fmlookup a name of None \<Rightarrow> 0 | Some matrix \<Rightarrow> fcard (fmdom matrix))"

subsection \<open>Sequences of calls on the matrix\<close>

datatype edgeCall =
  CallAddEdge string Vertex Vertex
| CallAddEdges string Vertex "Vertex list"

fun applyCall :: "inMemoryAdjacentMatrix \<Rightarrow> edgeCall \<Rightarrow> inMemoryAdjacentMatrix" where
  "applyCall a (CallAddEdge name p c) = AddEdge a name p c"
| "applyCall a (CallAddEdges name p cs) = AddEdges a name p cs"

definition runCalls :: "edgeCall list \<Rightarrow> inMemoryAdjacentMatrix" where
  "runCalls calls = foldl applyCall NewInMemoryAdjacentMatrix calls"

fun callName :: "edgeCall \<Rightarrow> string" where
  "callName (CallAddEdge name p c) = name"
| "callName (CallAddEdges name p cs) = name"

fun callParent :: "edgeCall \<Rightarrow> Vertex" where
  "callParent (CallAddEdge name p c) = p"
| "callParent (CallAddEdges name p cs) = p"

fun callChildren :: "edgeCall \<Rightarrow> Vertex list" where
  "callChildren (CallAddEdge name p c) = [c]"
| "callChildren (CallAddEdges name p cs) = cs"

text \<open>The parents named by the calls made under an edge name.\<close>

definition calledParents :: "string \<Rightarrow> edgeCall list \<Rightarrow> Vertex set" where
  "calledParents name calls = callParent ` set (filter (\<lambda>c. callName c = name) calls)"

text \<open>
  The reading of the specification: the parent vertices that have at least one outgoing
  child edge under the name.
\<close>

definition parentsWithChildren :: "inMemoryAdjacentMatrix \<Rightarrow> string \<Rightarrow> Vertex set" where
  "parentsWithChildren a name = {p. Get a name p \<noteq> []}"

text \<open>The keys of the inner map of an edge name.\<close>

definition innerKeys :: "inMemoryAdjacentMatrix \<Rightarrow> string \<Rightarrow> Vertex set" where
  "innerKeys a name = (case fmlookup a name of None \<Rightarrow> {} | Some matrix \<Rightarrow> fmdom' matrix)"

section \<open>Module records and their validator (go-spec, pkg/spec/v1)\<close>

text \<open>
  The record types of the module specification. A pointer field that may be nil is an
  option, a repeated field is a list. The annotations are a Go map: they are kept as the
  list of its entries in the order in which the range loop of the validator yields
  them. The elements of the dependency list are taken to be non-nil.
\<close>

datatype DependencyDirection = UPSTREAM | DOWNSTREAM

record ModuleVersion =
  Name :: string
  Schema :: "string option"
  Replaces :: "string list"

record ModuleDependency =
  Namespace :: string
  Name :: string
  Type :: string
  Version :: string
  Direction :: "DependencyDirection option"

record Module =
  Namespace :: string
  Name :: string
  Type :: string
  Version :: "ModuleVersion option"
  Annotations :: "(string \<times> string) list"
  Dependencies :: "ModuleDependency list"

text \<open>
  A Go \<^verbatim>\<open>error\<close> is its message; nil is \<open>None\<close>. The verb \<^verbatim>\<open>%d\<close> prints an
  integer in decimal.
\<close>

function showNat :: "nat \<Rightarrow> string" where
  "showNat n =
     (if n < 10 then [char_of (48 + n)] else showNat (n div 10) @ [char_of (48 + n mod 10)])"
  by pat_completeness auto
termination
  by (relation "measure id") auto

declare showNat.simps [simp del]

definition showInt :: "int \<Rightarrow> string" where
  "showInt i = (if i < 0 then CHR ''-'' # showNat (nat (- i)) else showNat (nat i))"

text \<open>
  \<^verbatim>\<open>regexp.MustCompile(`^[a-z0-9-.]+$`).MatchString\<close>: every byte of a non-empty string
  is a lowercase letter, a digit, a dash or a dot.
\<close>

definition isLowercaseAlphabetic :: "char \<Rightarrow> bool" where
  "isLowercaseAlphabetic c =
     ((of_char (CHR ''a'') :: nat) \<le> of_char c \<and> (of_char c :: nat) \<le> of_char (CHR ''z''))"

definition isDigit :: "char \<Rightarrow> bool" where
  "isDigit c =
     ((of_char (CHR ''0'') :: nat) \<le> of_char c \<and> (of_char c :: nat) \<le> of_char (CHR ''9''))"

definition isLowercaseAlphanumericDashDot :: "string \<Rightarrow> bool" where
  "isLowercaseAlphanumericDashDot value =
     (value \<noteq> [] \<and>
      list_all (\<lambda>c. isLowercaseAlphabetic c \<or> isDigit c \<or> c = CHR ''-'' \<or> c = CHR ''.'') value)"

fun mustFulfilConstraints :: "string option list \<Rightarrow> string option" where
  "mustFulfilConstraints [] = None"
| "mustFulfilConstraints (constraint # constraints) =
     (case constraint of Some err \<Rightarrow> Some err | None \<Rightarrow> mustFulfilConstraints constraints)"

definition mustHaveMinMaxLength :: "string \<Rightarrow> int \<Rightarrow> int \<Rightarrow> string option" where
  "mustHaveMinMaxLength value minLen maxLen =
     (if minLen < 0 then Some ''min length must be greater or equal 0''
      else if maxLen < 0 then Some ''max length must be greater or equal 0''
      else if minLen > maxLen then Some ''min length must be less or equal max length''
      else if int (length value) < minLen
        then Some (''must have at least '' @ showInt minLen @ '' characters'')
      else if int (length value) > maxLen
        then Some (''must have at most '' @ showInt maxLen @ '' characters'')
      else None)"

definition mustBeLowercaseAlphanumericDashDot :: "string \<Rightarrow> string option" where
  "mustBeLowercaseAlphanumericDashDot value =
     (if length value = 0 then None
      else if \<not> isLowercaseAlphanumericDashDot value
        then Some (''must contain only lowercase alphanumeric characters, '' @ [CHR 0x27] @ ''-''
                   @ [CHR 0x27] @ '' or '' @ [CHR 0x27] @ ''.'' @ [CHR 0x27])
      else None)"

definition mustStartWithLowercaseAlphabeticCharacter :: "string \<Rightarrow> string option" where
  "mustStartWithLowercaseAlphabeticCharacter value =
     (case value of
        [] \<Rightarrow> None
      | firstCharacter # rest \<Rightarrow>
          if isLowercaseAlphabetic firstCharacter then None
          else Some ''must start with lowercase alphabetic character'')"

definition mustStartWithLowercaseAlphanumericCharacter :: "string \<Rightarrow> string option" where
  "mustStartWithLowercaseAlphanumericCharacter value =
     (case value of
        [] \<Rightarrow> None
      | firstCharacter # rest \<Rightarrow>
          if isLowercaseAlphabetic firstCharacter \<or> isDigit firstCharacter then None
          else Some ''must start with lowercase alphanumeric character'')"

definition mustEndWithLowercaseAlphanumericCharacter :: "string \<Rightarrow> string option" where
  "mustEndWithLowercaseAlphanumericCharacter value =
     (if length value < 1 then None
      else if isLowercaseAlphabetic (last value) \<or> isDigit (last value) then None
      else Some ''must end with lowercase alphanumeric character'')"

definition validateModuleNamespace :: "string \<Rightarrow> string option" where
  "validateModuleNamespace namespace = mustFulfilConstraints
     [mustHaveMinMaxLength namespace 1 63,
      mustBeLowercaseAlphanumericDashDot namespace,
      mustStartWithLowercaseAlphabeticCharacter namespace,
      mustEndWithLowercaseAlphanumericCharacter namespace]"

definition validateModuleName :: "string \<Rightarrow> string option" where
  "validateModuleName name = mustFulfilConstraints
     [mustHaveMinMaxLength name 1 63,
      mustBeLowercaseAlphanumericDashDot name,
      mustStartWithLowercaseAlphabeticCharacter name,
      mustEndWithLowercaseAlphanumericCharacter name]"

definition validateModuleType :: "string \<Rightarrow> string option" where
  "validateModuleType type' = mustFulfilConstraints
     [mustHaveMinMaxLength type' 1 63,
      mustBeLowercaseAlphanumericDashDot type',
      mustStartWithLowercaseAlphabeticCharacter type',
      mustEndWithLowercaseAlphanumericCharacter type']"

definition validateModuleVersionName :: "string \<Rightarrow> string option" where
  "validateModuleVersionName name = mustFulfilConstraints
     [mustHaveMinMaxLength name 1 63,
      mustBeLowercaseAlphanumericDashDot name,
      mustStartWithLowercaseAlphanumericCharacter name,
      mustEndWithLowercaseAlphanumericCharacter name]"

definition validateModuleVersionSchema :: "string \<Rightarrow> string option" where
  "validateModuleVersionSchema schema = mustFulfilConstraints
     [mustHaveMinMaxLength schema 1 63,
      mustBeLowercaseAlphanumericDashDot schema,
      mustStartWithLowercaseAlphabeticCharacter schema,
      mustEndWithLowercaseAlphanumericCharacter schema]"

definition validateModuleAnnotationKey :: "string \<Rightarrow> string option" where
  "validateModuleAnnotationKey key = mustFulfilConstraints
     [mustHaveMinMaxLength key 1 63,
      mustBeLowercaseAlphanumericDashDot key,
      mustStartWithLowercaseAlphabeticCharacter key,
      mustEndWithLowercaseAlphanumericCharacter key]"

definition validateModuleAnnotationValue :: "string \<Rightarrow> string option" where
  "validateModuleAnnotationValue value = mustFulfilConstraints
     [mustHaveMinMaxLength value 0 253]"

text \<open>The loop over the replaced version names, with the index of the loop.\<close>

fun validateReplaces :: "nat \<Rightarrow> string list \<Rightarrow> string option" where
  "validateReplaces i [] = None"
| "validateReplaces i (v # vs) =
     (case validateModuleVersionName v of
        Some err \<Rightarrow> Some (''replaces: index '' @ showNat i @ '': '' @ err)
      | None \<Rightarrow> validateReplaces (Suc i) vs)"

definition ModuleVersion_Validate :: "ModuleVersion \<Rightarrow> string option" where
  "ModuleVersion_Validate x =
     (case validateModuleVersionName (ModuleVersion.Name x) of
        Some err \<Rightarrow> Some (''name: '' @ err)
      | None \<Rightarrow>
         (case (case Schema x of
                  None \<Rightarrow> None
                | Some schema \<Rightarrow> validateModuleVersionSchema schema) of
            Some err \<Rightarrow> Some (''schema: '' @ err)
          | None \<Rightarrow> validateReplaces 0 (Replaces x)))"

definition validateModuleVersion :: "ModuleVersion option \<Rightarrow> string option" where
  "validateModuleVersion moduleVersion =
     (case moduleVersion of
        None \<Rightarrow> Some ''must be set''
      | Some x \<Rightarrow> ModuleVersion_Validate x)"

text \<open>
  The verb \<^verbatim>\<open>%q\<close> of the annotation errors quotes the key as
  \<^verbatim>\<open>strconv.Quote\<close> does. The quoting function belongs to the Go library and is the
  parameter \<open>quote\<close> of the validator.
\<close>

fun validateModuleAnnotations :: "(string \<Rightarrow> string) \<Rightarrow> (string \<times> string) list \<Rightarrow> string option" where
  "validateModuleAnnotations quote [] = None"
| "validateModuleAnnotations quote ((k, v) # annotations) =
     (case validateModuleAnnotationKey k of
        Some err \<Rightarrow> Some (''key '' @ quote k @ '': '' @ err)
      | None \<Rightarrow>
         (case validateModuleAnnotationValue v of
            Some err \<Rightarrow> Some (''value of key '' @ quote k @ '': '' @ err)
          | None \<Rightarrow> validateModuleAnnotations quote annotations))"

definition ModuleDependency_Validate :: "ModuleDependency \<Rightarrow> string option" where
  "ModuleDependency_Validate x =
     (case validateModuleNamespace (ModuleDependency.Namespace x) of
        Some err \<Rightarrow> Some (''namespace: '' @ err)
      | None \<Rightarrow>
     (case validateModuleName (ModuleDependency.Name x) of
        Some err \<Rightarrow> Some (''name: '' @ err)
      | None \<Rightarrow>
     (case validateModuleType (ModuleDependency.Type x) of
        Some err \<Rightarrow> Some (''type: '' @ err)
      | None \<Rightarrow>
     (case validateModuleVersionName (ModuleDependency.Version x) of
        Some err \<Rightarrow> Some (''version: '' @ err)
      | None \<Rightarrow> None))))"

text \<open>The loop \<^verbatim>\<open>for i := 0; i < len(moduleDependencies); i++\<close>, from index \<open>i\<close> on.\<close>

fun validateModuleDependencies :: "nat \<Rightarrow> ModuleDependency list \<Rightarrow> string option" where
  "validateModuleDependencies i [] = None"
| "validateModuleDependencies i (moduleDependency # rest) =
     (case ModuleDependency_Validate moduleDependency of
        Some err \<Rightarrow> Some (''index '' @ showNat i @ '': '' @ err)
      | None \<Rightarrow> validateModuleDependencies (Suc i) rest)"

definition Module_Validate :: "(string \<Rightarrow> string) \<Rightarrow> Module \<Rightarrow> string option" where
  "Module_Validate quote x =
     (case validateModuleNamespace (Module.Namespace x) of
        Some err \<Rightarrow> Some (''namespace: '' @ err)
      | None \<Rightarrow>
     (case validateModuleName (Module.Name x) of
        Some err \<Rightarrow> Some (''name: '' @ err)
      | None \<Rightarrow>
     (case validateModuleType (Module.Type x) of
        Some err \<Rightarrow> Some (''type: '' @ err)
      | None \<Rightarrow>
     (case validateModuleVersion (Module.Version x) of
        Some err \<Rightarrow> Some (''version: '' @ err)
      | None \<Rightarrow>
     (case validateModuleAnnotations quote (Annotations x) of
        Some err \<Rightarrow> Some (''annotations: '' @ err)
      | None \<Rightarrow>
     (case validateModuleDependencies 0 (Dependencies x) of
        Some err \<Rightarrow> Some (''dependencies: '' @ err)
      | None \<Rightarrow> None))))))"

text \<open>
  The quoting of a key of printable ASCII characters without quote or backslash: the key
  between double quotes. It stands for \<^verbatim>\<open>strconv.Quote\<close> in the closed examples.
\<close>

definition quoteASCII :: "string \<Rightarrow> string" where
  "quoteASCII k = [CHR 0x22] @ k @ [CHR 0x22]"

text \<open>The empty module record \<^verbatim>\<open>&spec.Module{}\<close>: every field has its zero value.\<close>

definition emptyModule :: Module where
  "emptyModule = \<lparr>Module.Namespace = [], Module.Name = [], Module.Type = [],
     Module.Version = None, Annotations = [], Dependencies = []\<rparr>"

section \<open>Module graph (internal/module/graph/graph.go)\<close>

definition dependsOnEdge :: string where
  "dependsOnEdge = ''depends-on''"

definition usedByEdge :: string where
  "usedByEdge = ''used-by''"

definition requiredForEdge :: string where
  "requiredForEdge = ''required-for''"

definition requireEdge :: string where
  "requireEdge = ''require''"

text \<open>
  The graph holds an adjacency structure \<^verbatim>\<open>g.m\<close>; the repository has one
  implementation of it, the in-memory matrix, and the graph is modelled as that matrix.
  An error is its message, and a nil pointer dereference is a panic.
\<close>

datatype goError = Error string | Panic string

text \<open>The vertex of a module record (the version name comes from the version block).\<close>

definition moduleVertex :: "Module \<Rightarrow> ModuleVersion \<Rightarrow> Vertex" where
  "moduleVertex module version =
     \<lparr>Vertex.Namespace = Module.Namespace module, Vertex.Name = Module.Name module,
      Vertex.Type = Module.Type module, Vertex.Version = ModuleVersion.Name version\<rparr>"

definition dependencyVertex :: "ModuleDependency \<Rightarrow> Vertex" where
  "dependencyVertex dependency =
     \<lparr>Vertex.Namespace = ModuleDependency.Namespace dependency,
      Vertex.Name = ModuleDependency.Name dependency,
      Vertex.Type = ModuleDependency.Type dependency,
      Vertex.Version = ModuleDependency.Version dependency\<rparr>"

text \<open>The body of the loop over the dependencies of \<^verbatim>\<open>graph.AddModule\<close>.\<close>

definition addDependency :: "Vertex \<Rightarrow> inMemoryAdjacentMatrix \<Rightarrow> ModuleDependency \<Rightarrow> inMemoryAdjacentMatrix" where
  "addDependency p a dependency =
     (let v = dependencyVertex dependency in
      if Direction dependency = None \<or> Direction dependency = Some UPSTREAM
      then AddEdge (AddEdge a dependsOnEdge p v) usedByEdge v p
      else AddEdge (AddEdge a requiredForEdge p v) requireEdge v p)"

definition graph_AddModule ::
  "(string \<Rightarrow> string) \<Rightarrow> inMemoryAdjacentMatrix \<Rightarrow> Module option \<Rightarrow> goError option \<times> inMemoryAdjacentMatrix" where
  "graph_AddModule quote a module =
     (case module of
        None \<Rightarrow> (Some (Error ''module must not be nil''), a)
      | Some x \<Rightarrow>
         (case Module_Validate quote x of
            Some err \<Rightarrow> (Some (Error (''module validation failed: '' @ err)), a)
          | None \<Rightarrow>
             (case Module.Version x of
                None \<Rightarrow> (Some (Panic ''invalid memory address or nil pointer dereference''), a)
              | Some version \<Rightarrow>
                  (None, foldl (addDependency (moduleVertex x version)) a (Dependencies x)))))"

text \<open>The message of the error a call returned, empty when it returned nil.\<close>

fun errorMessage :: "goError option \<Rightarrow> string" where
  "errorMessage None = []"
| "errorMessage (Some (Error msg)) = msg"
| "errorMessage (Some (Panic msg)) = msg"

text \<open>A dependency whose direction is absent or UPSTREAM (the test of the loop body).\<close>

definition isUpstream :: "ModuleDependency \<Rightarrow> bool" where
  "isUpstream d = (Direction d = None \<or> Direction d = Some UPSTREAM)"

subsection \<open>The records of the graph tests\<close>

text \<open>
  The module \<^verbatim>\<open>com.example:product:go:v1.0.0\<close> of the tests of the graph, with its
  upstream dependency on \<^verbatim>\<open>lib\<close> (no direction given) and its downstream dependency
  on the protobuf module.
\<close>

definition exampleLib :: ModuleDependency where
  "exampleLib = \<lparr>ModuleDependency.Namespace = ''com.example'', ModuleDependency.Name = ''lib'',
     ModuleDependency.Type = ''go'', ModuleDependency.Version = ''v1.2.3'', Direction = None\<rparr>"

definition exampleProtobuf :: ModuleDependency where
  "exampleProtobuf = \<lparr>ModuleDependency.Namespace = ''com.example'',
     ModuleDependency.Name = ''product'', ModuleDependency.Type = ''protobuf'',
     ModuleDependency.Version = ''v1.8.9'', Direction = Some DOWNSTREAM\<rparr>"

definition exampleVersion :: ModuleVersion where
  "exampleVersion = \<lparr>ModuleVersion.Name = ''v1.0.0'', Schema = None, Replaces = []\<rparr>"

definition exampleModule :: Module where
  "exampleModule = \<lparr>Module.Namespace = ''com.example'', Module.Name = ''product'',
     Module.Type = ''go'', Module.Version = Some exampleVersion, Annotations = [],
     Dependencies = [exampleLib, exampleProtobuf]\<rparr>"

text \<open>
  Two records whose dependencies all have one direction: \<^verbatim>\<open>lib\<close> with its upstream
  dependency on \<^verbatim>\<open>util\<close>, and the product module with the downstream dependency on
  its protobuf module only.
\<close>

definition upstreamModule :: Module where
  "upstreamModule = \<lparr>Module.Namespace = ''com.example'', Module.Name = ''lib'',
     Module.Type = ''go'', Module.Version = Some exampleVersion, Annotations = [],
     Dependencies = [exampleLib]\<rparr>"

definition downstreamModule :: Module where
  "downstreamModule = \<lparr>Module.Namespace = ''com.example'', Module.Name = ''product'',
     Module.Type = ''go'', Module.Version = Some exampleVersion, Annotations = [],
     Dependencies = [exampleProtobuf]\<rparr>"

section \<open>In-memory repository (internal/module/repository/inmemory\_repository.go)\<close>

text \<open>
  The data of the repository is the four-level map
  \<^verbatim>\<open>namespace -> name -> type -> version -> *spec.Module\<close>. The inner maps are shared
  by reference in Go; the model rebuilds the path of maps it writes through. The stored
  pointers are never nil, and \<^verbatim>\<open>proto.Clone\<close> is a deep copy: the identity on values.
\<close>

type_synonym inMemoryRepository =
  "(string, (string, (string, (string, Module) fmap) fmap) fmap) fmap"

definition NewInMemoryRepository :: inMemoryRepository where
  "NewInMemoryRepository = fmempty"

definition inMemoryRepository_AddModule ::
  "(string \<Rightarrow> string) \<Rightarrow> inMemoryRepository \<Rightarrow> Module option \<Rightarrow> goError option \<times> inMemoryRepository" where
  "inMemoryRepository_AddModule quote data module =
     (case module of
        None \<Rightarrow> (Some (Error ''module must not be nil''), data)
      | Some x \<Rightarrow>
         (case Module_Validate quote x of
            Some err \<Rightarrow> (Some (Error (''module validation failed: '' @ err)), data)
          | None \<Rightarrow>
             (case Module.Version x of
                None \<Rightarrow> (Some (Panic ''invalid memory address or nil pointer dereference''), data)
              | Some version \<Rightarrow>
                 (let clone = x;
                      moduleNames = (case fmlookup data (Module.Namespace clone) of
                                       None \<Rightarrow> fmempty | Some names \<Rightarrow> names);
                      moduleTypes = (case fmlookup moduleNames (Module.Name clone) of
                                       None \<Rightarrow> fmempty | Some types \<Rightarrow> types);
                      moduleVersions = (case fmlookup moduleTypes (Module.Type clone) of
                                       None \<Rightarrow> fmempty | Some versions \<Rightarrow> versions)
                  in (None,
                      fmupd (Module.Namespace clone)
                        (fmupd (Module.Name clone)
                          (fmupd (Module.Type clone)
                            (fmupd (ModuleVersion.Name version) clone moduleVersions)
                            moduleTypes)
                          moduleNames)
                        data)))))"





text \<open>\<^verbatim>\<open>GetModule\<close> returns the record and nil, or nil and the error \<^verbatim>\<open>not found\<close>.\<close>

definition inMemoryRepository_GetModule ::
  "inMemoryRepository \<Rightarrow> string \<Rightarrow> string \<Rightarrow> string \<Rightarrow> string \<Rightarrow> Module option \<times> goError option" where
  "inMemoryRepository_GetModule data namespace name type' version =
     (let module =
        (case fmlookup data namespace of
           None \<Rightarrow> None
         | Some moduleNames \<Rightarrow>
            (case fmlookup moduleNames name of
               None \<Rightarrow> None
             | Some moduleTypes \<Rightarrow>
                (case fmlookup moduleTypes type' of
                   None \<Rightarrow> None
                 | Some moduleVersions \<Rightarrow> fmlookup moduleVersions version)))
      in case module of
           Some m \<Rightarrow> (Some m, None)
         | None \<Rightarrow> (None, Some (Error ''not found'')))"

subsection \<open>Sequences of calls on a repository\<close>







section \<open>Traversals (internal/module/graph/graph.go)\<close>

text \<open>
  A visitor is a Go closure: it may keep state of its own between calls. It is modelled
  as a function from its state and its arguments to its answer and its new state. A
  traversal returns the list of the visitor calls it made, in order, and the last state
  of the visitor. The map \<^verbatim>\<open>visited\<close> only ever holds the value true: it is the set of
  its keys.
\<close>

type_synonym 's bfsVisitor = "'s \<Rightarrow> Vertex \<Rightarrow> Vertex list \<Rightarrow> bool \<times> 's"

type_synonym 's dfsVisitor = "'s \<Rightarrow> Vertex \<Rightarrow> Vertex \<Rightarrow> bool \<times> 's"

text \<open>The children of all parents under an edge name: a finite set.\<close>

definition allChildren :: "inMemoryAdjacentMatrix \<Rightarrow> string \<Rightarrow> Vertex set" where
  "allChildren a name = (\<Union>p \<in> innerKeys a name. set (Get a name p))"

lemma finite_allChildren: "finite (allChildren a name)"
  by (auto simp: allChildren_def innerKeys_def split: option.splits)

lemma Get_subset_allChildren: "set (Get a name v) \<subseteq> allChildren a name"
proof (cases "Get a name v = []")
  case True
  then show ?thesis by simp
next
  case False
  then have "v \<in> innerKeys a name"
    by (auto simp: Get_def innerKeys_def fmdom'I split: option.splits)
  then show ?thesis
    by (auto simp: allChildren_def)
qed

subsection \<open>Breadth-first search\<close>

text \<open>
  The inner loop of \<^verbatim>\<open>traverseBFS\<close>: a child that is not yet marked is marked and pushed
  to the back of the queue.
\<close>

fun enqueueChildren :: "Vertex set \<Rightarrow> Vertex list \<Rightarrow> Vertex list \<Rightarrow> Vertex set \<times> Vertex list" where
  "enqueueChildren visited queue [] = (visited, queue)"
| "enqueueChildren visited queue (child # children) =
     (if child \<in> visited then enqueueChildren visited queue children
      else enqueueChildren (insert child visited) (queue @ [child]) children)"

lemma enqueueChildren_result:
  "\<exists>new. enqueueChildren visited queue children = (visited \<union> set children, queue @ new)
     \<and> distinct new \<and> set new = set children - visited"
proof (induction children arbitrary: visited queue)
  case Nil
  show ?case by simp
next
  case (Cons child children)
  show ?case
  proof (cases "child \<in> visited")
    case True
    obtain new where "enqueueChildren visited queue children = (visited \<union> set children, queue @ new)"
      and "distinct new" and "set new = set children - visited"
      using Cons.IH [of visited queue] by blast
    with True show ?thesis by (auto simp: insert_absorb)
  next
    case False
    obtain new where new: "enqueueChildren (insert child visited) (queue @ [child]) children
        = (insert child visited \<union> set children, (queue @ [child]) @ new)"
      and "distinct new" and "set new = set children - insert child visited"
      using Cons.IH [of "insert child visited" "queue @ [child]"] by blast
    with False have "enqueueChildren visited queue (child # children)
        = (visited \<union> set (child # children), queue @ (child # new))
      \<and> distinct (child # new) \<and> set (child # new) = set (child # children) - visited"
      by auto
    then show ?thesis by blast
  qed
qed

text \<open>
  The loop \<^verbatim>\<open>for queue.Len() > 0\<close>. The front of the queue is visited, its unmarked
  children are pushed to the back, and the front is removed.
\<close>

function traverseBFS_loop ::
  "inMemoryAdjacentMatrix \<Rightarrow> string \<Rightarrow> 's bfsVisitor \<Rightarrow> Vertex set \<Rightarrow> Vertex list \<Rightarrow> 's
    \<Rightarrow> (Vertex \<times> Vertex list) list \<times> 's" where
  "traverseBFS_loop a edgeName fn visited queue st =
     (case queue of
        [] \<Rightarrow> ([], st)
      | qv # rest \<Rightarrow>
         (let children = Get a edgeName qv;
              ok = fst (fn st qv children);
              st' = snd (fn st qv children)
          in if \<not> ok then ([(qv, children)], st')
             else
               (let visited' = fst (enqueueChildren visited queue children);
                    queue' = tl (snd (enqueueChildren visited queue children));
                    later = traverseBFS_loop a edgeName fn visited' queue' st'
                in ((qv, children) # fst later, snd later))))"
  by pat_completeness auto
termination
proof (relation "measure (\<lambda>(a, edgeName, fn, visited, queue, st).
    card (allChildren a edgeName - visited) + length queue)", goal_cases)
  case 1
  show ?case by simp
next
  case (2 a edgeName fn visited queue st qv rest children ok st' visited')
  obtain new where new: "enqueueChildren visited queue children = (visited \<union> set children, queue @ new)"
    and "distinct new" and set_new: "set new = set children - visited"
    using enqueueChildren_result by blast
  have sub: "set new \<subseteq> allChildren a edgeName - visited"
    using set_new Get_subset_allChildren [of a edgeName qv] 2 by auto
  have diff: "allChildren a edgeName - visited' = (allChildren a edgeName - visited) - set new"
    using 2 new set_new by auto
  have "card (allChildren a edgeName - visited')
      = card (allChildren a edgeName - visited) - card (set new)"
    unfolding diff using sub finite_allChildren by (simp add: card_Diff_subset finite_subset)
  moreover have "card (set new) \<le> card (allChildren a edgeName - visited)"
    using sub finite_allChildren by (simp add: card_mono)
  moreover have "card (set new) = length new"
    using \<open>distinct new\<close> by (simp add: distinct_card)
  moreover have "length (tl (snd (enqueueChildren visited queue children))) = length rest + length new"
    using 2 new by simp
  ultimately show ?case
    using 2 by simp
qed

declare traverseBFS_loop.simps [simp del]

text \<open>The start vertex is pushed and marked before the loop.\<close>

definition traverseBFS ::
  "inMemoryAdjacentMatrix \<Rightarrow> string \<Rightarrow> Vertex \<Rightarrow> 's bfsVisitor \<Rightarrow> 's \<Rightarrow> (Vertex \<times> Vertex list) list \<times> 's" where
  "traverseBFS a edgeName s fn st = traverseBFS_loop a edgeName fn {s} [s] st"

subsection \<open>Depth-first search\<close>

text \<open>
  The stack \<^verbatim>\<open>vertexPairStack\<close> is a slice of pairs (parent, vertex); its top is the
  last element. \<^verbatim>\<open>Pop\<close> of the empty stack returns \<^verbatim>\<open>emptyStackErr\<close>: \<open>None\<close>.
\<close>

type_synonym vertexPairStack = "(Vertex \<times> Vertex) list"

definition Push :: "vertexPairStack \<Rightarrow> Vertex \<Rightarrow> Vertex \<Rightarrow> vertexPairStack" where
  "Push s k v = s @ [(k, v)]"

definition Pop :: "vertexPairStack \<Rightarrow> (Vertex \<times> Vertex \<times> vertexPairStack) option" where
  "Pop s = (if length s = 0 then None else Some (fst (last s), snd (last s), butlast s))"

definition emptyVertex :: Vertex where
  "emptyVertex = \<lparr>Vertex.Namespace = [], Vertex.Name = [], Vertex.Type = [], Vertex.Version = []\<rparr>"

text \<open>The inner loop of \<^verbatim>\<open>traverseDFS\<close>: every child that is not marked is pushed.\<close>

fun pushChildren :: "Vertex set \<Rightarrow> vertexPairStack \<Rightarrow> Vertex \<Rightarrow> Vertex list \<Rightarrow> vertexPairStack" where
  "pushChildren visited stack v [] = stack"
| "pushChildren visited stack v (child # children) =
     (if child \<in> visited then pushChildren visited stack v children
      else pushChildren visited (Push stack v child) v children)"

lemma pushChildren_eq:
  "pushChildren visited stack v children =
     stack @ map (Pair v) (filter (\<lambda>c. c \<notin> visited) children)"
  by (induction children arbitrary: stack) (simp_all add: Push_def)

text \<open>
  The weight of a stack entry for the termination of the loop: an entry whose vertex is
  marked counts its unmarked children.
\<close>

definition entryWeight :: "inMemoryAdjacentMatrix \<Rightarrow> string \<Rightarrow> Vertex set \<Rightarrow> Vertex \<times> Vertex \<Rightarrow> nat" where
  "entryWeight a edgeName visited e =
     (if snd e \<in> visited then 2 + length (filter (\<lambda>c. c \<notin> visited) (Get a edgeName (snd e))) else 1)"

lemma entryWeight_pushed:
  "sum_list (map (entryWeight a edgeName visited \<circ> Pair v) (filter (\<lambda>c. c \<notin> visited) children))
     = length (filter (\<lambda>c. c \<notin> visited) children)"
  by (induction children) (simp_all add: entryWeight_def)

text \<open>
  The loop \<^verbatim>\<open>for { p, v, err := stack.Pop(); ... }\<close>: the popped vertex is marked, the
  visitor is called, and the unmarked children are pushed with the vertex as parent.
\<close>

function traverseDFS_loop ::
  "inMemoryAdjacentMatrix \<Rightarrow> string \<Rightarrow> 's dfsVisitor \<Rightarrow> Vertex set \<Rightarrow> vertexPairStack \<Rightarrow> 's
    \<Rightarrow> (Vertex \<times> Vertex) list \<times> 's" where
  "traverseDFS_loop a edgeName fn visited stack st =
     (case Pop stack of
        None \<Rightarrow> ([], st)
      | Some (p, v, stack') \<Rightarrow>
         (let visited' = insert v visited;
              ok = fst (fn st p v);
              st' = snd (fn st p v)
          in if \<not> ok then ([(p, v)], st')
             else
               (let children = Get a edgeName v;
                    stack'' = pushChildren visited' stack' v children;
                    later = traverseDFS_loop a edgeName fn visited' stack'' st'
                in ((p, v) # fst later, snd later))))"
  by pat_completeness auto
termination
proof (relation "inv_image (less_than <*lex*> less_than)
    (\<lambda>(a, edgeName, fn, visited, stack, st).
      (card ((allChildren a edgeName \<union> snd ` set stack) - visited),
       sum_list (map (entryWeight a edgeName visited) stack)))", goal_cases)
  case 1
  show ?case by (intro wf_inv_image wf_lex_prod wf_less_than)
next
  case (2 a edgeName fn visited stack st x2 p x2a v stack' visited' ok st' children stack'')
  have stack: "stack = stack' @ [(p, v)]"
    using 2 by (auto simp: Pop_def split: if_splits)
  have stack'': "stack'' = stack' @ map (Pair v) (filter (\<lambda>c. c \<notin> visited') children)"
    using 2 by (simp add: pushChildren_eq)
  let ?U = "allChildren a edgeName \<union> snd ` set stack"
  let ?U' = "allChildren a edgeName \<union> snd ` set stack''"
  have fin: "finite ?U"
    by (simp add: finite_allChildren)
  have sub: "?U' - visited' \<subseteq> ?U - visited"
    using stack stack'' Get_subset_allChildren [of a edgeName v] 2 by auto
  show ?case
  proof (cases "v \<in> visited")
    case False
    then have "v \<in> ?U - visited" and "v \<notin> ?U' - visited'"
      using stack 2 by auto
    then have "?U' - visited' \<subset> ?U - visited"
      using sub by blast
    then have "card (?U' - visited') < card (?U - visited)"
      using fin by (simp add: psubset_card_mono)
    then show ?thesis by simp
  next
    case True
    then have same: "visited' = visited"
      using 2 by auto
    have "card (?U' - visited') \<le> card (?U - visited)"
      using sub fin by (simp add: card_mono)
    moreover have "sum_list (map (entryWeight a edgeName visited') stack'')
        < sum_list (map (entryWeight a edgeName visited) stack)"
      unfolding same stack stack'' using True \<open>children = Get a edgeName v\<close>
      by (simp add: entryWeight_pushed entryWeight_def)
    ultimately show ?thesis by auto
  qed
qed

declare traverseDFS_loop.simps [simp del]

text \<open>The stack is seeded with the pair of the empty vertex and the start vertex.\<close>

definition traverseDFS ::
  "inMemoryAdjacentMatrix \<Rightarrow> string \<Rightarrow> Vertex \<Rightarrow> 's dfsVisitor \<Rightarrow> 's \<Rightarrow> (Vertex \<times> Vertex) list \<times> 's" where
  "traverseDFS a edgeName s fn st =
     traverseDFS_loop a edgeName fn {} (Push [] emptyVertex s) st"

subsection \<open>A graph with two paths to one module\<close>

text \<open>
  Three valid records: \<^verbatim>\<open>app\<close> depends on \<^verbatim>\<open>util\<close> and on \<^verbatim>\<open>lib\<close> (declared in this
  order), and \<^verbatim>\<open>lib\<close> depends on \<^verbatim>\<open>util\<close>. The graph is built by two calls of
  \<^verbatim>\<open>graph.AddModule\<close> on a new matrix.
\<close>

definition goDependency :: "string \<Rightarrow> ModuleDependency" where
  "goDependency name = \<lparr>ModuleDependency.Namespace = ''com.example'', ModuleDependency.Name = name,
     ModuleDependency.Type = ''go'', ModuleDependency.Version = ''v1.0.0'', Direction = None\<rparr>"

definition goModule :: "string \<Rightarrow> ModuleDependency list \<Rightarrow> Module" where
  "goModule name dependencies = \<lparr>Module.Namespace = ''com.example'', Module.Name = name,
     Module.Type = ''go'', Module.Version = Some exampleVersion, Annotations = [],
     Dependencies = dependencies\<rparr>"

definition goVertex :: "string \<Rightarrow> Vertex" where
  "goVertex name = \<lparr>Vertex.Namespace = ''com.example'', Vertex.Name = name,
     Vertex.Type = ''go'', Vertex.Version = ''v1.0.0''\<rparr>"

definition diamondGraph :: inMemoryAdjacentMatrix where
  "diamondGraph =
     snd (graph_AddModule quoteASCII
       (snd (graph_AddModule quoteASCII NewInMemoryAdjacentMatrix
          (Some (goModule ''app'' [goDependency ''util'', goDependency ''lib'']))))
       (Some (goModule ''lib'' [goDependency ''util''])))"

text \<open>The visitors that always return true and keep no state.\<close>

definition continueDFS :: "unit dfsVisitor" where
  "continueDFS st p v = (True, st)"

definition continueBFS :: "unit bfsVisitor" where
  "continueBFS st p children = (True, st)"

subsection \<open>Measures of a relation\<close>

text \<open>
  The number of edges into a vertex and the number of all edges of a relation, each
  entry of a child list counted on its own.
\<close>

definition inDegree :: "inMemoryAdjacentMatrix \<Rightarrow> string \<Rightarrow> Vertex \<Rightarrow> nat" where
  "inDegree a name v = (\<Sum>p \<in> innerKeys a name. count_list (Get a name p) v)"

definition numberOfChildEdges :: "inMemoryAdjacentMatrix \<Rightarrow> string \<Rightarrow> nat" where
  "numberOfChildEdges a name = (\<Sum>p \<in> innerKeys a name. length (Get a name p))"

text \<open>
  The invariant of the stack of the depth-first loop: the unmarked children of a marked
  vertex of the stack lie above it.
\<close>

definition stackInvariant ::
  "inMemoryAdjacentMatrix \<Rightarrow> string \<Rightarrow> Vertex set \<Rightarrow> vertexPairStack \<Rightarrow> bool" where
  "stackInvariant a name visited stack =
     (\<forall>lower q u upper. stack = lower @ (q, u) # upper \<longrightarrow> u \<in> visited \<longrightarrow>
        (\<forall>c \<in> set (Get a name u). c \<notin> visited \<longrightarrow> c \<in> snd ` set upper))"

text \<open>
  The child edges of the unmarked parents whose child satisfies \<open>P\<close>: the pushes the
  depth-first loop can still make for such children.
\<close>

definition pendingEdges ::
  "(Vertex \<Rightarrow> bool) \<Rightarrow> inMemoryAdjacentMatrix \<Rightarrow> string \<Rightarrow> Vertex set \<Rightarrow> nat" where
  "pendingEdges P a name visited =
     (\<Sum>u \<in> innerKeys a name - visited. length (filter P (Get a name u)))"

section \<open>File repository (internal/module/repository/file\_repository.go)\<close>

subsection \<open>Paths: the Go packages strings, path and path/filepath on Unix\<close>

text \<open>
  The functions of the Go library the repository calls, written from their
  documentation. \<^verbatim>\<open>strings.Split\<close> at a separator of one byte; an empty string gives one
  empty part.
\<close>

fun splitOn :: "char \<Rightarrow> string \<Rightarrow> string list" where
  "splitOn sep [] = [[]]"
| "splitOn sep (c # cs) =
     (if c = sep then [] # splitOn sep cs
      else (case splitOn sep cs of [] \<Rightarrow> [[c]] | e # es \<Rightarrow> (c # e) # es))"

text \<open>\<^verbatim>\<open>strings.Join(elems, "/")\<close>.\<close>

fun joinSlash :: "string list \<Rightarrow> string" where
  "joinSlash [] = []"
| "joinSlash [e] = e"
| "joinSlash (e # es) = e @ ''/'' @ joinSlash es"

text \<open>
  \<^verbatim>\<open>path.Clean\<close>: multiple slashes become one, \<^verbatim>\<open>.\<close> elements are dropped, an inner
  \<^verbatim>\<open>..\<close> is dropped with the element before it, \<^verbatim>\<open>..\<close> at the start of a rooted path is
  dropped, and the empty result is \<^verbatim>\<open>.\<close>.
\<close>

fun cleanElements :: "bool \<Rightarrow> string list \<Rightarrow> string list \<Rightarrow> string list" where
  "cleanElements rooted out [] = out"
| "cleanElements rooted out (e # es) =
     (if e = [] \<or> e = ''.'' then cleanElements rooted out es
      else if e = ''..'' then
        (if out \<noteq> [] \<and> last out \<noteq> ''..'' then cleanElements rooted (butlast out) es
         else if rooted then cleanElements rooted out es
         else cleanElements rooted (out @ [''..'']) es)
      else cleanElements rooted (out @ [e]) es)"

definition Clean :: "string \<Rightarrow> string" where
  "Clean p =
     (if p = [] then ''.''
      else if hd p = CHR ''/''
        then CHR ''/'' # joinSlash (cleanElements True [] (splitOn (CHR ''/'') p))
      else if joinSlash (cleanElements False [] (splitOn (CHR ''/'') p)) = [] then ''.''
      else joinSlash (cleanElements False [] (splitOn (CHR ''/'') p)))"

text \<open>
  \<^verbatim>\<open>path.Join\<close> and \<^verbatim>\<open>filepath.Join\<close>: empty elements are ignored, the others are joined
  with slashes and the result is cleaned; with no element, or only empty ones, the
  result is the empty string.
\<close>

definition Join :: "string list \<Rightarrow> string" where
  "Join elem =
     (case filter (\<lambda>e. e \<noteq> []) elem of [] \<Rightarrow> [] | e # es \<Rightarrow> Clean (joinSlash (e # es)))"

text \<open>
  \<^verbatim>\<open>filepath.SplitList\<close> splits a list of paths at the list separator of the system, the
  colon, as in \<^verbatim>\<open>PATH\<close>; the empty string gives the empty list.
\<close>

definition SplitList :: "string \<Rightarrow> string list" where
  "SplitList path = (if path = [] then [] else splitOn (CHR '':'') path)"

text \<open>
  The directories above a clean absolute path, from the root down to the path itself,
  and those properly above it.
\<close>

definition ancestorsOf :: "string \<Rightarrow> string list" where
  "ancestorsOf p =
     map (\<lambda>es. CHR ''/'' # joinSlash es) (prefixes (filter (\<lambda>e. e \<noteq> []) (splitOn (CHR ''/'') p)))"

definition properAncestors :: "string \<Rightarrow> string list" where
  "properAncestors p = butlast (ancestorsOf p)"

subsection \<open>The file system\<close>

text \<open>
  A file system is a finite map from clean absolute paths to directories and regular
  files. The content of a record file is the marshalled record: \<^verbatim>\<open>proto.Unmarshal\<close> is
  the inverse of \<^verbatim>\<open>proto.Marshal\<close> (section 4.2 of the specification), so the content is
  kept as the record itself; any other content is a byte string. Only the calls of the
  package \<^verbatim>\<open>os\<close> that the repository makes are modelled, with the error numbers they
  return; permissions always allow the call.
\<close>

datatype fileData = ProtoBytes Module | OtherBytes string

datatype fsNode = Directory | RegularFile fileData

datatype fsError = ENOENT | ENOTDIR | EISDIR | ENOTEMPTY

type_synonym fileSystem = "(string, fsNode) fmap"

definition isRegularFile :: "fileSystem \<Rightarrow> string \<Rightarrow> bool" where
  "isRegularFile fs q = (case fmlookup fs q of Some (RegularFile d) \<Rightarrow> True | _ \<Rightarrow> False)"

definition isDirectory :: "fileSystem \<Rightarrow> string \<Rightarrow> bool" where
  "isDirectory fs q = (fmlookup fs q = Some Directory)"

text \<open>
  \<^verbatim>\<open>os.Stat\<close>: the empty name does not exist; a regular file on the way gives
  \<^verbatim>\<open>ENOTDIR\<close>, for which \<^verbatim>\<open>os.IsNotExist\<close> is false.
\<close>

definition Stat :: "fileSystem \<Rightarrow> string \<Rightarrow> fsError + fsNode" where
  "Stat fs name =
     (if name = [] then Inl ENOENT
      else if list_ex (isRegularFile fs) (properAncestors name) then Inl ENOTDIR
      else if list_ex (\<lambda>q. fmlookup fs q = None) (properAncestors name) then Inl ENOENT
      else (case fmlookup fs name of None \<Rightarrow> Inl ENOENT | Some node \<Rightarrow> Inr node))"

definition IsNotExist :: "fsError + fsNode \<Rightarrow> bool" where
  "IsNotExist result = (result = Inl ENOENT)"

text \<open>\<^verbatim>\<open>os.MkdirAll\<close> creates the directory and the missing directories above it.\<close>

definition MkdirAll :: "fileSystem \<Rightarrow> string \<Rightarrow> fsError + fileSystem" where
  "MkdirAll fs path =
     (if list_ex (isRegularFile fs) (ancestorsOf path) then Inl ENOTDIR
      else Inr (foldl (\<lambda>f q. if fmlookup f q = None then fmupd q Directory f else f)
                  fs (ancestorsOf path)))"

text \<open>\<^verbatim>\<open>ioutil.ReadDir\<close>: the entries directly below a directory.\<close>

definition ReadDir :: "fileSystem \<Rightarrow> string \<Rightarrow> fsError + string fset" where
  "ReadDir fs name =
     (case Stat fs name of
        Inl e \<Rightarrow> Inl e
      | Inr (RegularFile d) \<Rightarrow> Inl ENOTDIR
      | Inr Directory \<Rightarrow>
          Inr (ffilter (\<lambda>q. properAncestors q \<noteq> [] \<and> last (properAncestors q) = name) (fmdom fs)))"

text \<open>\<^verbatim>\<open>os.Remove\<close> removes a file or an empty directory.\<close>

definition Remove :: "fileSystem \<Rightarrow> string \<Rightarrow> fsError + fileSystem" where
  "Remove fs name =
     (case Stat fs name of
        Inl e \<Rightarrow> Inl e
      | Inr (RegularFile d) \<Rightarrow> Inr (fmdrop name fs)
      | Inr Directory \<Rightarrow>
          (if ReadDir fs name = Inr {||} then Inr (fmdrop name fs) else Inl ENOTEMPTY))"

text \<open>
  \<^verbatim>\<open>ioutil.WriteFile\<close> creates or truncates a file in an existing directory, and
  \<^verbatim>\<open>ioutil.ReadFile\<close> reads one.
\<close>

definition WriteFile :: "fileSystem \<Rightarrow> string \<Rightarrow> fileData \<Rightarrow> fsError + fileSystem" where
  "WriteFile fs name content =
     (case Stat fs name of
        Inr Directory \<Rightarrow> Inl EISDIR
      | Inr (RegularFile d) \<Rightarrow> Inr (fmupd name (RegularFile content) fs)
      | Inl e \<Rightarrow>
          (if name \<noteq> [] \<and> list_all (isDirectory fs) (properAncestors name)
           then Inr (fmupd name (RegularFile content) fs) else Inl e))"


text \<open>
  The lock of \<^verbatim>\<open>github.com/gofrs/flock\<close>: \<^verbatim>\<open>TryLockContext\<close> and
  \<^verbatim>\<open>TryRLockContext\<close> open the lock file, creating it when it is missing, and take the
  advisory lock. No other process is modelled, so the lock is free; the call fails only
  when the lock file cannot be opened. \<open>None\<close> is the failure. \<^verbatim>\<open>Unlock\<close> leaves the lock
  file in place and returns nil.
\<close>

definition tryLock :: "fileSystem \<Rightarrow> string \<Rightarrow> fileSystem option" where
  "tryLock fs lockPath =
     (case WriteFile fs lockPath (OtherBytes []) of
        Inl e \<Rightarrow> None
      | Inr fs' \<Rightarrow> (if isRegularFile fs lockPath then Some fs else Some fs'))"

text \<open>The text of an error of the package \<^verbatim>\<open>os\<close>: operation, path and cause.\<close>

fun errnoText :: "fsError \<Rightarrow> string" where
  "errnoText ENOENT = ''no such file or directory''"
| "errnoText ENOTDIR = ''not a directory''"
| "errnoText EISDIR = ''is a directory''"
| "errnoText ENOTEMPTY = ''directory not empty''"

definition pathErrorText :: "string \<Rightarrow> string \<Rightarrow> fsError \<Rightarrow> string" where
  "pathErrorText operation path e = operation @ '' '' @ path @ '': '' @ errnoText e"

subsection \<open>The repository\<close>

definition modulesDirectory :: string where
  "modulesDirectory = ''modules''"

definition moduleFileExtension :: string where
  "moduleFileExtension = ''module.bin''"

text \<open>
  The repository is its field \<^verbatim>\<open>path\<close>, the absolute path of the modules directory. The
  base path given to \<^verbatim>\<open>NewFileRepository\<close> is taken to be absolute, so that
  \<^verbatim>\<open>filepath.Abs\<close> only cleans it.
\<close>

definition NewFileRepository :: "fileSystem \<Rightarrow> string \<Rightarrow> (goError + string) \<times> fileSystem" where
  "NewFileRepository fs path =
     (let absDir = Clean (Join [path, modulesDirectory]) in
      case MkdirAll fs absDir of
        Inl e \<Rightarrow> (Inl (Error (''could not create directory: '' @ pathErrorText ''mkdir'' absDir e)), fs)
      | Inr fs' \<Rightarrow> (Inr absDir, fs'))"

definition newFileLock :: "string \<Rightarrow> string" where
  "newFileLock absFilePath = absFilePath @ ''.lock''"

definition getAbsoluteModuleNamespaceDirectoryPath :: "string \<Rightarrow> string \<Rightarrow> string" where
  "getAbsoluteModuleNamespaceDirectoryPath r namespace = Join [r, namespace]"

definition getAbsoluteModuleNameDirectoryPath :: "string \<Rightarrow> string \<Rightarrow> string \<Rightarrow> string" where
  "getAbsoluteModuleNameDirectoryPath r namespace name = Join [r, namespace, name]"

definition getAbsoluteModuleTypeDirectoryPath :: "string \<Rightarrow> string \<Rightarrow> string \<Rightarrow> string \<Rightarrow> string" where
  "getAbsoluteModuleTypeDirectoryPath r namespace name type' = Join [r, namespace, name, type']"

definition getAbsoluteModuleFilePath :: "string \<Rightarrow> string \<Rightarrow> string \<Rightarrow> string \<Rightarrow> string \<Rightarrow> string" where
  "getAbsoluteModuleFilePath r namespace name type' version =
     Join [r, namespace, name, type', version @ ''.'' @ moduleFileExtension]"

definition fileRepository_AddModule ::
  "(string \<Rightarrow> string) \<Rightarrow> string \<Rightarrow> fileSystem \<Rightarrow> Module option \<Rightarrow> goError option \<times> fileSystem" where
  "fileRepository_AddModule quote r fs module =
     (case module of
        None \<Rightarrow> (Some (Error ''module must not be nil''), fs)
      | Some x \<Rightarrow>
         (case Module_Validate quote x of
            Some err \<Rightarrow> (Some (Error (''module validation failed: '' @ err)), fs)
          | None \<Rightarrow>
             (let serializedModule = ProtoBytes x;
                  typeDirectory = getAbsoluteModuleTypeDirectoryPath r
                    (Module.Namespace x) (Module.Name x) (Module.Type x)
              in case MkdirAll fs typeDirectory of
                   Inl e \<Rightarrow>
                     (Some (Error (''could not create directory: ''
                        @ pathErrorText ''mkdir'' typeDirectory e)), fs)
                 | Inr fs1 \<Rightarrow>
                    (case Module.Version x of
                       None \<Rightarrow>
                         (Some (Panic ''invalid memory address or nil pointer dereference''), fs1)
                     | Some version \<Rightarrow>
                        (let targetAbsModuleFilePath = getAbsoluteModuleFilePath r
                               (Module.Namespace x) (Module.Name x) (Module.Type x)
                               (ModuleVersion.Name version)
                         in case tryLock fs1 (newFileLock targetAbsModuleFilePath) of
                              None \<Rightarrow>
                                (Some (Error (''could not lock: ''
                                   @ newFileLock targetAbsModuleFilePath)), fs1)
                            | Some fs2 \<Rightarrow>
                               (case WriteFile fs2 targetAbsModuleFilePath serializedModule of
                                  Inl e \<Rightarrow>
                                    (Some (Error (''could not write module file: ''
                                       @ pathErrorText ''open'' targetAbsModuleFilePath e)), fs2)
                                | Inr fs3 \<Rightarrow> (None, fs3)))))))"

text \<open>
  \<^verbatim>\<open>cleanup\<close>. The loop \<^verbatim>\<open>for i := len(splitPath) - 1; i <= 0; i--\<close> runs its body only
  when the list has at most one element, and every branch of the body returns: the body
  runs at most once, with \<open>i = 0\<close>, or with \<open>i = -1\<close> for the empty list, where the index
  is out of range.
\<close>

definition cleanup :: "fileSystem \<Rightarrow> string \<Rightarrow> goError option \<times> fileSystem" where
  "cleanup fs path =
     (let splitPath = SplitList path;
          i = int (length splitPath) - 1
      in if i \<le> 0 then
           (if i < 0 then (Some (Panic ''index out of range [-1]''), fs)
            else
              (let pathSeg = splitPath ! nat i in
               if pathSeg = modulesDirectory then (None, fs)
               else
                 (let subPath = Join (take (nat i) splitPath) in
                  if IsNotExist (Stat fs subPath) then (None, fs)
                  else
                    (case ReadDir fs subPath of
                       Inl e \<Rightarrow>
                         (Some (Error (''could not list files: ''
                            @ pathErrorText ''open'' subPath e)), fs)
                     | Inr files \<Rightarrow>
                         (if fcard files = 0 then
                            (case Remove fs subPath of
                               Inl e \<Rightarrow> (Some (Error (pathErrorText ''remove'' subPath e)), fs)
                             | Inr fs' \<Rightarrow> (None, fs'))
                          else (None, fs))))))
         else (None, fs))"

definition fileRepository_DeleteModuleVersion ::
  "string \<Rightarrow> fileSystem \<Rightarrow> string \<Rightarrow> string \<Rightarrow> string \<Rightarrow> string \<Rightarrow> goError option \<times> fileSystem" where
  "fileRepository_DeleteModuleVersion r fs namespace name type' version =
     (let filePath = getAbsoluteModuleFilePath r namespace name type' version in
      case Stat fs filePath of
        Inr node \<Rightarrow>
          (case Remove fs filePath of
             Inl e \<Rightarrow> (Some (Error (pathErrorText ''remove'' filePath e)), fs)
           | Inr fs' \<Rightarrow> cleanup fs' (getAbsoluteModuleTypeDirectoryPath r namespace name type'))
      | Inl e \<Rightarrow> cleanup fs (getAbsoluteModuleTypeDirectoryPath r namespace name type'))"


subsection \<open>A repository on an empty disk\<close>

text \<open>
  The record of the tests of the file repository, and a file system that holds only the
  root directory, on which the repository is created under \<^verbatim>\<open>/data\<close>.
\<close>

definition storedModule :: Module where
  "storedModule = \<lparr>Module.Namespace = ''com.example'', Module.Name = ''product'',
     Module.Type = ''go'', Module.Version = Some exampleVersion, Annotations = [],
     Dependencies = []\<rparr>"

definition emptyDisk :: fileSystem where
  "emptyDisk = fmupd ''/'' Directory fmempty"

definition dataModules :: string where
  "dataModules = ''/data/modules''"

definition diskWithRepository :: fileSystem where
  "diskWithRepository = snd (NewFileRepository emptyDisk ''/data'')"

definition diskWithModule :: fileSystem where
  "diskWithModule = snd (fileRepository_AddModule quoteASCII dataModules diskWithRepository
     (Some storedModule))"

definition diskAfterDelete :: fileSystem where
  "diskAfterDelete = snd (fileRepository_DeleteModuleVersion dataModules diskWithModule
     ''com.example'' ''product'' ''go'' ''v1.0.0'')"

section \<open>Properties of the adjacency structure\<close>

lemma NumberOfEdges_innerKeys: "NumberOfEdges a name = card (innerKeys a name)"
  by (simp add: NumberOfEdges_def innerKeys_def fcard.rep_eq fmdom'_alt_def split: option.splits)

lemma applyCall_AddEdges: "applyCall a c = AddEdges a (callName c) (callParent c) (callChildren c)"
  by (cases c) (simp_all add: AddEdge_def AddEdges_def)

lemma innerKeys_AddEdges:
  "innerKeys (AddEdges a n p cs) name = innerKeys a name \<union> (if n = name then {p} else {})"
  by (auto simp: innerKeys_def AddEdges_def Let_def split: option.splits)

lemma Get_AddEdges:
  "Get (AddEdges a n p cs) name v = Get a name v @ (if n = name \<and> p = v then cs else [])"
  by (auto simp: Get_def AddEdges_def Let_def split: option.splits)

lemma Get_AddEdge:
  "Get (AddEdge a n p c) name v = Get a name v @ (if n = name \<and> p = v then [c] else [])"
  by (auto simp: Get_def AddEdge_def Let_def split: option.splits)

lemma innerKeys_foldl:
  "innerKeys (foldl applyCall a calls) name = innerKeys a name \<union> calledParents name calls"
proof (induction calls arbitrary: a)
  case Nil
  show ?case by (simp add: calledParents_def)
next
  case (Cons c calls)
  have "calledParents name (c # calls) =
      (if callName c = name then {callParent c} else {}) \<union> calledParents name calls"
    by (auto simp: calledParents_def)
  then show ?case
    using Cons.IH [of "applyCall a c"]
    by (simp add: applyCall_AddEdges innerKeys_AddEdges Un_assoc)
qed

lemma innerKeys_runCalls: "innerKeys (runCalls calls) name = calledParents name calls"
  by (simp add: runCalls_def innerKeys_foldl) (simp add: innerKeys_def NewInMemoryAdjacentMatrix_def)

lemma Get_subset_innerKeys: "Get a name p \<noteq> [] \<Longrightarrow> p \<in> innerKeys a name"
  by (auto simp: Get_def innerKeys_def fmdom'I split: option.splits)

lemma keys_have_children_foldl:
  assumes "\<forall>c \<in> set calls. callChildren c \<noteq> []"
    and "\<forall>p \<in> innerKeys a name. Get a name p \<noteq> []"
  shows "\<forall>p \<in> innerKeys (foldl applyCall a calls) name. Get (foldl applyCall a calls) name p \<noteq> []"
  using assms
proof (induction calls arbitrary: a)
  case Nil
  then show ?case by simp
next
  case (Cons c calls)
  have "\<forall>p \<in> innerKeys (applyCall a c) name. Get (applyCall a c) name p \<noteq> []"
    using Cons.prems by (auto simp: applyCall_AddEdges innerKeys_AddEdges Get_AddEdges)
  then show ?case
    using Cons.IH [of "applyCall a c"] Cons.prems(1) by simp
qed

lemma parentsWithChildren_runCalls:
  assumes "\<forall>c \<in> set calls. callChildren c \<noteq> []"
  shows "parentsWithChildren (runCalls calls) name = calledParents name calls"
proof -
  have "\<forall>p \<in> innerKeys (runCalls calls) name. Get (runCalls calls) name p \<noteq> []"
    unfolding runCalls_def
    by (rule keys_have_children_foldl [OF assms])
       (simp add: innerKeys_def NewInMemoryAdjacentMatrix_def)
  then have "parentsWithChildren (runCalls calls) name = innerKeys (runCalls calls) name"
    using Get_subset_innerKeys by (auto simp: parentsWithChildren_def)
  then show ?thesis by (simp add: innerKeys_runCalls)
qed

text \<open>
  C3 (as stated, refuted). After the single call
  \<^verbatim>\<open>AddEdges("upstream", {a,b,c,d}, [])\<close> the inner map has the key of the parent with
  an empty child list: \<^verbatim>\<open>NumberOfEdges("upstream")\<close> is 1 although no parent has an
  outgoing child edge.
\<close>

theorem C3_NumberOfEdges_counterexample:
  "NumberOfEdges (runCalls [CallAddEdges ''upstream''
       \<lparr>Vertex.Namespace = ''a'', Vertex.Name = ''b'', Vertex.Type = ''c'', Vertex.Version = ''d''\<rparr> []]) ''upstream'' = 1
   \<and> card (parentsWithChildren (runCalls [CallAddEdges ''upstream''
       \<lparr>Vertex.Namespace = ''a'', Vertex.Name = ''b'', Vertex.Type = ''c'', Vertex.Version = ''d''\<rparr> []]) ''upstream'') = 0"
  by (simp add: NumberOfEdges_def parentsWithChildren_def runCalls_def AddEdges_def Get_def
      NewInMemoryAdjacentMatrix_def fcard_finsert_if)

text \<open>
  C3 (amended). For every edge name and every sequence of AddEdge/AddEdges calls on a new
  matrix, NumberOfEdges(name) is the number of distinct parent vertices named by a call
  under that name. When every AddEdges call of the sequence passes at least one child,
  this is the number of distinct parents with at least one outgoing child edge under the
  name, whatever the number of children.
\<close>

theorem C3_NumberOfEdges:
  "NumberOfEdges (runCalls calls) name = card (calledParents name calls)
   \<and> ((\<forall>c \<in> set calls. callChildren c \<noteq> []) \<longrightarrow>
        NumberOfEdges (runCalls calls) name = card (parentsWithChildren (runCalls calls) name))"
  by (simp add: NumberOfEdges_innerKeys innerKeys_runCalls parentsWithChildren_runCalls)

theorem C3_NumberOfEdges_witness:
  "callChildren (CallAddEdges ''upstream''
       \<lparr>Vertex.Namespace = ''a'', Vertex.Name = ''b'', Vertex.Type = ''c'', Vertex.Version = ''d''\<rparr>
       [\<lparr>Vertex.Namespace = ''e'', Vertex.Name = ''f'', Vertex.Type = ''g'', Vertex.Version = ''h''\<rparr>,
        \<lparr>Vertex.Namespace = ''i'', Vertex.Name = ''j'', Vertex.Type = ''k'', Vertex.Version = ''l''\<rparr>]) \<noteq> []
   \<and> NumberOfEdges (runCalls [CallAddEdges ''upstream''
       \<lparr>Vertex.Namespace = ''a'', Vertex.Name = ''b'', Vertex.Type = ''c'', Vertex.Version = ''d''\<rparr>
       [\<lparr>Vertex.Namespace = ''e'', Vertex.Name = ''f'', Vertex.Type = ''g'', Vertex.Version = ''h''\<rparr>,
        \<lparr>Vertex.Namespace = ''i'', Vertex.Name = ''j'', Vertex.Type = ''k'', Vertex.Version = ''l''\<rparr>]]) ''upstream'' = 1
   \<and> card (parentsWithChildren (runCalls [CallAddEdges ''upstream''
       \<lparr>Vertex.Namespace = ''a'', Vertex.Name = ''b'', Vertex.Type = ''c'', Vertex.Version = ''d''\<rparr>
       [\<lparr>Vertex.Namespace = ''e'', Vertex.Name = ''f'', Vertex.Type = ''g'', Vertex.Version = ''h''\<rparr>,
        \<lparr>Vertex.Namespace = ''i'', Vertex.Name = ''j'', Vertex.Type = ''k'', Vertex.Version = ''l''\<rparr>]]) ''upstream'') = 1"
proof -
  let ?calls = "[CallAddEdges ''upstream''
       \<lparr>Vertex.Namespace = ''a'', Vertex.Name = ''b'', Vertex.Type = ''c'', Vertex.Version = ''d''\<rparr>
       [\<lparr>Vertex.Namespace = ''e'', Vertex.Name = ''f'', Vertex.Type = ''g'', Vertex.Version = ''h''\<rparr>,
        \<lparr>Vertex.Namespace = ''i'', Vertex.Name = ''j'', Vertex.Type = ''k'', Vertex.Version = ''l''\<rparr>]]"
  have nonempty: "\<forall>c \<in> set ?calls. callChildren c \<noteq> []"
    by simp
  have count: "NumberOfEdges (runCalls ?calls) ''upstream'' = card (calledParents ''upstream'' ?calls)"
    and same: "NumberOfEdges (runCalls ?calls) ''upstream'' =
      card (parentsWithChildren (runCalls ?calls) ''upstream'')"
    using C3_NumberOfEdges [of ?calls "''upstream''"] nonempty by blast+
  have one: "card (calledParents ''upstream'' ?calls) = 1"
    by (simp add: calledParents_def)
  show ?thesis
    using count same one by simp
qed

section \<open>Properties of the validator and of graph.AddModule\<close>

lemma edge_names_distinct:
  "dependsOnEdge \<noteq> usedByEdge" "dependsOnEdge \<noteq> requiredForEdge" "dependsOnEdge \<noteq> requireEdge"
  "usedByEdge \<noteq> dependsOnEdge" "usedByEdge \<noteq> requiredForEdge" "usedByEdge \<noteq> requireEdge"
  "requiredForEdge \<noteq> dependsOnEdge" "requiredForEdge \<noteq> usedByEdge" "requiredForEdge \<noteq> requireEdge"
  "requireEdge \<noteq> dependsOnEdge" "requireEdge \<noteq> usedByEdge" "requireEdge \<noteq> requiredForEdge"
  by (simp_all add: dependsOnEdge_def usedByEdge_def requiredForEdge_def requireEdge_def)

lemma fmlookup_AddEdge_other: "n \<noteq> n' \<Longrightarrow> fmlookup (AddEdge a n p c) n' = fmlookup a n'"
  by (simp add: AddEdge_def Let_def)

lemma Module_Validate_Version:
  "Module_Validate quote x = None \<Longrightarrow> \<exists>version. Module.Version x = Some version"
  by (auto simp: Module_Validate_def validateModuleVersion_def split: option.splits)

lemma graph_AddModule_valid:
  assumes "Module_Validate quote x = None" and "Module.Version x = Some version"
  shows "graph_AddModule quote a (Some x) =
    (None, foldl (addDependency (moduleVertex x version)) a (Dependencies x))"
  using assms by (simp add: graph_AddModule_def)

lemma addDependency_upstream:
  assumes "isUpstream d"
  shows "Get (addDependency p b d) dependsOnEdge x =
      Get b dependsOnEdge x @ (if x = p then [dependencyVertex d] else [])"
    and "Get (addDependency p b d) usedByEdge x =
      Get b usedByEdge x @ (if x = dependencyVertex d then [p] else [])"
    and "fmlookup (addDependency p b d) requiredForEdge = fmlookup b requiredForEdge"
    and "fmlookup (addDependency p b d) requireEdge = fmlookup b requireEdge"
  using assms
  by (auto simp: addDependency_def isUpstream_def Let_def Get_AddEdge fmlookup_AddEdge_other
      edge_names_distinct)

lemma addDependency_downstream:
  assumes "\<not> isUpstream d"
  shows "Get (addDependency p b d) requiredForEdge x =
      Get b requiredForEdge x @ (if x = p then [dependencyVertex d] else [])"
    and "Get (addDependency p b d) requireEdge x =
      Get b requireEdge x @ (if x = dependencyVertex d then [p] else [])"
    and "fmlookup (addDependency p b d) dependsOnEdge = fmlookup b dependsOnEdge"
    and "fmlookup (addDependency p b d) usedByEdge = fmlookup b usedByEdge"
  using assms
  by (auto simp: addDependency_def isUpstream_def Let_def Get_AddEdge fmlookup_AddEdge_other
      edge_names_distinct)

text \<open>What the whole loop appends to each of the four relations.\<close>

lemma foldl_addDependency_dependsOn:
  "Get (foldl (addDependency p) b ds) dependsOnEdge x =
     Get b dependsOnEdge x @ (if x = p then map dependencyVertex (filter isUpstream ds) else [])"
proof (induction ds arbitrary: b)
  case Nil
  show ?case by simp
next
  case (Cons d ds)
  show ?case
  proof (cases "isUpstream d")
    case True
    then show ?thesis
      using Cons.IH [of "addDependency p b d"] by (simp add: addDependency_upstream)
  next
    case False
    then have "Get (addDependency p b d) dependsOnEdge x = Get b dependsOnEdge x"
      by (simp add: Get_def addDependency_downstream)
    with False show ?thesis
      using Cons.IH [of "addDependency p b d"] by simp
  qed
qed

lemma foldl_addDependency_usedBy:
  "Get (foldl (addDependency p) b ds) usedByEdge x =
     Get b usedByEdge x @
     replicate (length (filter (\<lambda>d. isUpstream d \<and> dependencyVertex d = x) ds)) p"
proof (induction ds arbitrary: b)
  case Nil
  show ?case by simp
next
  case (Cons d ds)
  show ?case
  proof (cases "isUpstream d")
    case True
    then show ?thesis
      using Cons.IH [of "addDependency p b d"] by (simp add: addDependency_upstream)
  next
    case False
    then have "Get (addDependency p b d) usedByEdge x = Get b usedByEdge x"
      by (simp add: Get_def addDependency_downstream)
    with False show ?thesis
      using Cons.IH [of "addDependency p b d"] by simp
  qed
qed

lemma foldl_addDependency_requiredFor:
  "Get (foldl (addDependency p) b ds) requiredForEdge x =
     Get b requiredForEdge x @
     (if x = p then map dependencyVertex (filter (\<lambda>d. \<not> isUpstream d) ds) else [])"
proof (induction ds arbitrary: b)
  case Nil
  show ?case by simp
next
  case (Cons d ds)
  show ?case
  proof (cases "isUpstream d")
    case False
    then show ?thesis
      using Cons.IH [of "addDependency p b d"] by (simp add: addDependency_downstream)
  next
    case True
    then have "Get (addDependency p b d) requiredForEdge x = Get b requiredForEdge x"
      by (simp add: Get_def addDependency_upstream)
    with True show ?thesis
      using Cons.IH [of "addDependency p b d"] by simp
  qed
qed

lemma foldl_addDependency_require:
  "Get (foldl (addDependency p) b ds) requireEdge x =
     Get b requireEdge x @
     replicate (length (filter (\<lambda>d. \<not> isUpstream d \<and> dependencyVertex d = x) ds)) p"
proof (induction ds arbitrary: b)
  case Nil
  show ?case by simp
next
  case (Cons d ds)
  show ?case
  proof (cases "isUpstream d")
    case False
    then show ?thesis
      using Cons.IH [of "addDependency p b d"] by (simp add: addDependency_downstream)
  next
    case True
    then have "Get (addDependency p b d) requireEdge x = Get b requireEdge x"
      by (simp add: Get_def addDependency_upstream)
    with True show ?thesis
      using Cons.IH [of "addDependency p b d"] by simp
  qed
qed

lemma foldl_addDependency_all_upstream:
  assumes "\<forall>d \<in> set ds. isUpstream d"
  shows "fmlookup (foldl (addDependency p) b ds) requiredForEdge = fmlookup b requiredForEdge
    \<and> fmlookup (foldl (addDependency p) b ds) requireEdge = fmlookup b requireEdge"
  using assms by (induction ds arbitrary: b) (simp_all add: addDependency_upstream)

lemma foldl_addDependency_all_downstream:
  assumes "\<forall>d \<in> set ds. \<not> isUpstream d"
  shows "fmlookup (foldl (addDependency p) b ds) dependsOnEdge = fmlookup b dependsOnEdge
    \<and> fmlookup (foldl (addDependency p) b ds) usedByEdge = fmlookup b usedByEdge"
  using assms by (induction ds arbitrary: b) (simp_all add: addDependency_downstream)

lemmas validate_defs =
  Module_Validate_def ModuleDependency_Validate_def ModuleVersion_Validate_def
  validateModuleVersion_def validateModuleNamespace_def validateModuleName_def
  validateModuleType_def validateModuleVersionName_def validateModuleVersionSchema_def
  validateModuleAnnotationKey_def validateModuleAnnotationValue_def
  mustHaveMinMaxLength_def mustBeLowercaseAlphanumericDashDot_def
  mustStartWithLowercaseAlphabeticCharacter_def mustStartWithLowercaseAlphanumericCharacter_def
  mustEndWithLowercaseAlphanumericCharacter_def isLowercaseAlphanumericDashDot_def
  isLowercaseAlphabetic_def isDigit_def showInt_def showNat.simps

lemma exampleModule_valid: "Module_Validate quote exampleModule = None"
  by (simp add: exampleModule_def exampleLib_def exampleProtobuf_def exampleVersion_def
      validate_defs)

lemma count_list_replicate_same: "count_list (replicate n p) p = n"
  by (induction n) simp_all

lemma count_list_map_filter:
  "count_list (map f (filter P ds)) x = length (filter (\<lambda>d. P d \<and> f d = x) ds)"
  by (induction ds) auto

lemma upstreamModule_valid: "Module_Validate quote upstreamModule = None"
  by (simp add: upstreamModule_def exampleLib_def exampleVersion_def validate_defs)

lemma downstreamModule_valid: "Module_Validate quote downstreamModule = None"
  by (simp add: downstreamModule_def exampleProtobuf_def exampleVersion_def validate_defs)

text \<open>
  C5 (as stated, refuted). The record \<^verbatim>\<open>com.example:product:go:v1.0.0\<close> is valid and
  has the upstream dependency \<^verbatim>\<open>lib\<close> (no direction given) and the DOWNSTREAM dependency
  on its protobuf module. \<^verbatim>\<open>graph.AddModule\<close> on a new matrix returns nil, and although
  \<^verbatim>\<open>lib\<close> is upstream the required-for and require relations are not unchanged: the
  loop also runs for the protobuf module, and the number of required-for parents goes
  from 0 to 1, that of require parents as well.
\<close>

theorem C5_edge_duality_counterexample:
  "Module_Validate quoteASCII exampleModule = None
   \<and> exampleLib \<in> set (Dependencies exampleModule)
   \<and> Direction exampleLib = None
   \<and> fst (graph_AddModule quoteASCII NewInMemoryAdjacentMatrix (Some exampleModule)) = None
   \<and> NumberOfEdges NewInMemoryAdjacentMatrix requiredForEdge = 0
   \<and> NumberOfEdges (snd (graph_AddModule quoteASCII NewInMemoryAdjacentMatrix
        (Some exampleModule))) requiredForEdge = 1
   \<and> NumberOfEdges NewInMemoryAdjacentMatrix requireEdge = 0
   \<and> NumberOfEdges (snd (graph_AddModule quoteASCII NewInMemoryAdjacentMatrix
        (Some exampleModule))) requireEdge = 1
   \<and> Get (snd (graph_AddModule quoteASCII NewInMemoryAdjacentMatrix (Some exampleModule)))
        requiredForEdge (moduleVertex exampleModule exampleVersion)
      = [dependencyVertex exampleProtobuf]"
proof -
  have valid: "Module_Validate quoteASCII exampleModule = None"
    by (rule exampleModule_valid)
  have version: "Module.Version exampleModule = Some exampleVersion"
    by (simp add: exampleModule_def)
  have run: "graph_AddModule quoteASCII NewInMemoryAdjacentMatrix (Some exampleModule) =
      (None, addDependency (moduleVertex exampleModule exampleVersion)
         (addDependency (moduleVertex exampleModule exampleVersion) NewInMemoryAdjacentMatrix
            exampleLib) exampleProtobuf)"
    by (simp add: graph_AddModule_valid [OF valid version]) (simp add: exampleModule_def)
  have before: "NumberOfEdges NewInMemoryAdjacentMatrix requiredForEdge = 0"
    "NumberOfEdges NewInMemoryAdjacentMatrix requireEdge = 0"
    by (simp_all add: NumberOfEdges_def NewInMemoryAdjacentMatrix_def)
  have after: "NumberOfEdges (addDependency (moduleVertex exampleModule exampleVersion)
         (addDependency (moduleVertex exampleModule exampleVersion) NewInMemoryAdjacentMatrix
            exampleLib) exampleProtobuf) requiredForEdge = 1"
    "NumberOfEdges (addDependency (moduleVertex exampleModule exampleVersion)
         (addDependency (moduleVertex exampleModule exampleVersion) NewInMemoryAdjacentMatrix
            exampleLib) exampleProtobuf) requireEdge = 1"
    by (simp_all add: NumberOfEdges_def addDependency_def AddEdge_def Let_def
        NewInMemoryAdjacentMatrix_def exampleLib_def exampleProtobuf_def dependsOnEdge_def
        usedByEdge_def requiredForEdge_def requireEdge_def fcard_finsert_if)
  have children: "Get (addDependency (moduleVertex exampleModule exampleVersion)
         (addDependency (moduleVertex exampleModule exampleVersion) NewInMemoryAdjacentMatrix
            exampleLib) exampleProtobuf) requiredForEdge (moduleVertex exampleModule exampleVersion)
      = [dependencyVertex exampleProtobuf]"
    by (simp add: addDependency_def Let_def Get_AddEdge exampleLib_def exampleProtobuf_def
        dependsOnEdge_def usedByEdge_def requiredForEdge_def requireEdge_def)
       (simp add: Get_def NewInMemoryAdjacentMatrix_def)
  show ?thesis
    unfolding run using valid before after children
    by (simp add: exampleModule_def) (simp add: exampleLib_def)
qed

text \<open>
  C5 (amended). For every valid record \<open>m\<close>, every dependency \<open>D\<close> of \<open>m\<close> and every
  matrix, \<^verbatim>\<open>graph.AddModule(m)\<close> returns nil, and afterwards: if the direction of \<open>D\<close> is
  absent or UPSTREAM, depends-on(m, D) and used-by(D, m) hold; if it is DOWNSTREAM,
  required-for(m, D) and require(D, m) hold. The call appends to depends-on and used-by
  the pairs of the upstream dependencies of \<open>m\<close> and nothing else, and to required-for
  and require the pairs of its DOWNSTREAM dependencies and nothing else: the two members
  of a pair are added together (as many copies of \<open>D\<close> under \<open>m\<close> as of \<open>m\<close> under \<open>D\<close>),
  required-for and require are unchanged when \<open>m\<close> has no DOWNSTREAM dependency, and
  depends-on and used-by are unchanged when \<open>m\<close> has no upstream dependency.
\<close>

theorem C5_edge_duality:
  assumes valid: "Module_Validate quote m = None"
    and dep: "D \<in> set (Dependencies m)"
  shows "\<exists>version. Module.Version m = Some version \<and>
    (let p = moduleVertex m version;
         v = dependencyVertex D;
         ds = Dependencies m;
         a' = snd (graph_AddModule quote a (Some m))
     in fst (graph_AddModule quote a (Some m)) = None
      \<and> (if isUpstream D
         then v \<in> set (Get a' dependsOnEdge p) \<and> p \<in> set (Get a' usedByEdge v)
         else v \<in> set (Get a' requiredForEdge p) \<and> p \<in> set (Get a' requireEdge v))
      \<and> (\<forall>x. Get a' dependsOnEdge x = Get a dependsOnEdge x @
            (if x = p then map dependencyVertex (filter isUpstream ds) else []))
      \<and> (\<forall>x. Get a' usedByEdge x = Get a usedByEdge x @
            replicate (length (filter (\<lambda>d. isUpstream d \<and> dependencyVertex d = x) ds)) p)
      \<and> (\<forall>x. Get a' requiredForEdge x = Get a requiredForEdge x @
            (if x = p then map dependencyVertex (filter (\<lambda>d. \<not> isUpstream d) ds) else []))
      \<and> (\<forall>x. Get a' requireEdge x = Get a requireEdge x @
            replicate (length (filter (\<lambda>d. \<not> isUpstream d \<and> dependencyVertex d = x) ds)) p)
      \<and> (\<forall>x. count_list (Get a' dependsOnEdge p) x + count_list (Get a usedByEdge x) p
             = count_list (Get a dependsOnEdge p) x + count_list (Get a' usedByEdge x) p)
      \<and> (\<forall>x. count_list (Get a' requiredForEdge p) x + count_list (Get a requireEdge x) p
             = count_list (Get a requiredForEdge p) x + count_list (Get a' requireEdge x) p)
      \<and> ((\<forall>d \<in> set ds. isUpstream d) \<longrightarrow>
            fmlookup a' requiredForEdge = fmlookup a requiredForEdge
          \<and> fmlookup a' requireEdge = fmlookup a requireEdge)
      \<and> ((\<forall>d \<in> set ds. \<not> isUpstream d) \<longrightarrow>
            fmlookup a' dependsOnEdge = fmlookup a dependsOnEdge
          \<and> fmlookup a' usedByEdge = fmlookup a usedByEdge))"
proof -
  obtain version where version: "Module.Version m = Some version"
    using Module_Validate_Version [OF valid] by blast
  define p where "p = moduleVertex m version"
  define v where "v = dependencyVertex D"
  define ds where "ds = Dependencies m"
  define a' where "a' = snd (graph_AddModule quote a (Some m))"
  have run: "graph_AddModule quote a (Some m) = (None, foldl (addDependency p) a ds)"
    unfolding p_def ds_def by (rule graph_AddModule_valid [OF valid version])
  have a': "a' = foldl (addDependency p) a ds"
    by (simp add: a'_def run)
  have dep': "D \<in> set ds"
    using dep by (simp add: ds_def)
  have dependsOn: "Get a' dependsOnEdge x = Get a dependsOnEdge x @
      (if x = p then map dependencyVertex (filter isUpstream ds) else [])" for x
    unfolding a' by (rule foldl_addDependency_dependsOn)
  have usedBy: "Get a' usedByEdge x = Get a usedByEdge x @
      replicate (length (filter (\<lambda>d. isUpstream d \<and> dependencyVertex d = x) ds)) p" for x
    unfolding a' by (rule foldl_addDependency_usedBy)
  have requiredFor: "Get a' requiredForEdge x = Get a requiredForEdge x @
      (if x = p then map dependencyVertex (filter (\<lambda>d. \<not> isUpstream d) ds) else [])" for x
    unfolding a' by (rule foldl_addDependency_requiredFor)
  have require: "Get a' requireEdge x = Get a requireEdge x @
      replicate (length (filter (\<lambda>d. \<not> isUpstream d \<and> dependencyVertex d = x) ds)) p" for x
    unfolding a' by (rule foldl_addDependency_require)
  have direction: "if isUpstream D
         then v \<in> set (Get a' dependsOnEdge p) \<and> p \<in> set (Get a' usedByEdge v)
         else v \<in> set (Get a' requiredForEdge p) \<and> p \<in> set (Get a' requireEdge v)"
  proof (cases "isUpstream D")
    case True
    have "filter (\<lambda>d. isUpstream d \<and> dependencyVertex d = v) ds \<noteq> []"
      using dep' True by (auto simp: filter_empty_conv v_def)
    then have "p \<in> set (Get a' usedByEdge v)"
      unfolding usedBy by simp
    moreover have "v \<in> set (Get a' dependsOnEdge p)"
      unfolding dependsOn using dep' True by (auto simp: v_def)
    ultimately show ?thesis
      using True by simp
  next
    case False
    have "filter (\<lambda>d. \<not> isUpstream d \<and> dependencyVertex d = v) ds \<noteq> []"
      using dep' False by (auto simp: filter_empty_conv v_def)
    then have "p \<in> set (Get a' requireEdge v)"
      unfolding require by simp
    moreover have "v \<in> set (Get a' requiredForEdge p)"
      unfolding requiredFor using dep' False by (auto simp: v_def)
    ultimately show ?thesis
      using False by simp
  qed
  have pairs_up: "count_list (Get a' dependsOnEdge p) x + count_list (Get a usedByEdge x) p
      = count_list (Get a dependsOnEdge p) x + count_list (Get a' usedByEdge x) p" for x
    unfolding dependsOn usedBy
    by (simp add: count_list_map_filter count_list_replicate_same)
  have pairs_down: "count_list (Get a' requiredForEdge p) x + count_list (Get a requireEdge x) p
      = count_list (Get a requiredForEdge p) x + count_list (Get a' requireEdge x) p" for x
    unfolding requiredFor require
    by (simp add: count_list_map_filter count_list_replicate_same)
  have up: "(\<forall>d \<in> set ds. isUpstream d) \<longrightarrow>
            fmlookup a' requiredForEdge = fmlookup a requiredForEdge
          \<and> fmlookup a' requireEdge = fmlookup a requireEdge"
    unfolding a' using foldl_addDependency_all_upstream by blast
  have down: "(\<forall>d \<in> set ds. \<not> isUpstream d) \<longrightarrow>
            fmlookup a' dependsOnEdge = fmlookup a dependsOnEdge
          \<and> fmlookup a' usedByEdge = fmlookup a usedByEdge"
    unfolding a' using foldl_addDependency_all_downstream by blast
  have nil: "fst (graph_AddModule quote a (Some m)) = None"
    by (simp add: run)
  have "fst (graph_AddModule quote a (Some m)) = None
      \<and> (if isUpstream D
         then v \<in> set (Get a' dependsOnEdge p) \<and> p \<in> set (Get a' usedByEdge v)
         else v \<in> set (Get a' requiredForEdge p) \<and> p \<in> set (Get a' requireEdge v))
      \<and> (\<forall>x. Get a' dependsOnEdge x = Get a dependsOnEdge x @
            (if x = p then map dependencyVertex (filter isUpstream ds) else []))
      \<and> (\<forall>x. Get a' usedByEdge x = Get a usedByEdge x @
            replicate (length (filter (\<lambda>d. isUpstream d \<and> dependencyVertex d = x) ds)) p)
      \<and> (\<forall>x. Get a' requiredForEdge x = Get a requiredForEdge x @
            (if x = p then map dependencyVertex (filter (\<lambda>d. \<not> isUpstream d) ds) else []))
      \<and> (\<forall>x. Get a' requireEdge x = Get a requireEdge x @
            replicate (length (filter (\<lambda>d. \<not> isUpstream d \<and> dependencyVertex d = x) ds)) p)
      \<and> (\<forall>x. count_list (Get a' dependsOnEdge p) x + count_list (Get a usedByEdge x) p
             = count_list (Get a dependsOnEdge p) x + count_list (Get a' usedByEdge x) p)
      \<and> (\<forall>x. count_list (Get a' requiredForEdge p) x + count_list (Get a requireEdge x) p
             = count_list (Get a requiredForEdge p) x + count_list (Get a' requireEdge x) p)
      \<and> ((\<forall>d \<in> set ds. isUpstream d) \<longrightarrow>
            fmlookup a' requiredForEdge = fmlookup a requiredForEdge
          \<and> fmlookup a' requireEdge = fmlookup a requireEdge)
      \<and> ((\<forall>d \<in> set ds. \<not> isUpstream d) \<longrightarrow>
            fmlookup a' dependsOnEdge = fmlookup a dependsOnEdge
          \<and> fmlookup a' usedByEdge = fmlookup a usedByEdge)"
    using nil direction dependsOn usedBy requiredFor require pairs_up pairs_down up down
    by (intro conjI allI) 
  then show ?thesis
    unfolding p_def v_def ds_def a'_def Let_def using version by blast
qed

text \<open>
  The theorem at two records: \<^verbatim>\<open>lib\<close>, whose only dependency is upstream, leaves
  required-for and require as they were, and the product module with only its DOWNSTREAM
  dependency leaves depends-on and used-by as they were.
\<close>

theorem C5_edge_duality_witness:
  "Module_Validate quoteASCII upstreamModule = None
   \<and> exampleLib \<in> set (Dependencies upstreamModule)
   \<and> isUpstream exampleLib
   \<and> dependencyVertex exampleLib \<in> set (Get (snd (graph_AddModule quoteASCII
        NewInMemoryAdjacentMatrix (Some upstreamModule))) dependsOnEdge
        (moduleVertex upstreamModule exampleVersion))
   \<and> moduleVertex upstreamModule exampleVersion \<in> set (Get (snd (graph_AddModule quoteASCII
        NewInMemoryAdjacentMatrix (Some upstreamModule))) usedByEdge (dependencyVertex exampleLib))
   \<and> fmlookup (snd (graph_AddModule quoteASCII NewInMemoryAdjacentMatrix (Some upstreamModule)))
        requiredForEdge = fmlookup NewInMemoryAdjacentMatrix requiredForEdge
   \<and> fmlookup (snd (graph_AddModule quoteASCII NewInMemoryAdjacentMatrix (Some upstreamModule)))
        requireEdge = fmlookup NewInMemoryAdjacentMatrix requireEdge
   \<and> Module_Validate quoteASCII downstreamModule = None
   \<and> exampleProtobuf \<in> set (Dependencies downstreamModule)
   \<and> \<not> isUpstream exampleProtobuf
   \<and> dependencyVertex exampleProtobuf \<in> set (Get (snd (graph_AddModule quoteASCII
        NewInMemoryAdjacentMatrix (Some downstreamModule))) requiredForEdge
        (moduleVertex downstreamModule exampleVersion))
   \<and> moduleVertex downstreamModule exampleVersion \<in> set (Get (snd (graph_AddModule quoteASCII
        NewInMemoryAdjacentMatrix (Some downstreamModule))) requireEdge
        (dependencyVertex exampleProtobuf))
   \<and> fmlookup (snd (graph_AddModule quoteASCII NewInMemoryAdjacentMatrix (Some downstreamModule)))
        dependsOnEdge = fmlookup NewInMemoryAdjacentMatrix dependsOnEdge
   \<and> fmlookup (snd (graph_AddModule quoteASCII NewInMemoryAdjacentMatrix (Some downstreamModule)))
        usedByEdge = fmlookup NewInMemoryAdjacentMatrix usedByEdge"
proof -
  have valid_up: "Module_Validate quoteASCII upstreamModule = None"
    by (rule upstreamModule_valid)
  have dep_up: "exampleLib \<in> set (Dependencies upstreamModule)"
    by (simp add: upstreamModule_def)
  have all_up: "\<forall>d \<in> set (Dependencies upstreamModule). isUpstream d"
    by (simp add: upstreamModule_def isUpstream_def exampleLib_def)
  have up: "isUpstream exampleLib"
    by (simp add: isUpstream_def exampleLib_def)
  have version_up: "Module.Version upstreamModule = Some exampleVersion"
    by (simp add: upstreamModule_def)
  have valid_down: "Module_Validate quoteASCII downstreamModule = None"
    by (rule downstreamModule_valid)
  have dep_down: "exampleProtobuf \<in> set (Dependencies downstreamModule)"
    by (simp add: downstreamModule_def)
  have all_down: "\<forall>d \<in> set (Dependencies downstreamModule). \<not> isUpstream d"
    by (simp add: downstreamModule_def isUpstream_def exampleProtobuf_def)
  have down: "\<not> isUpstream exampleProtobuf"
    by (simp add: isUpstream_def exampleProtobuf_def)
  have version_down: "Module.Version downstreamModule = Some exampleVersion"
    by (simp add: downstreamModule_def)
  have first: "dependencyVertex exampleLib \<in> set (Get (snd (graph_AddModule quoteASCII
        NewInMemoryAdjacentMatrix (Some upstreamModule))) dependsOnEdge
        (moduleVertex upstreamModule exampleVersion))
   \<and> moduleVertex upstreamModule exampleVersion \<in> set (Get (snd (graph_AddModule quoteASCII
        NewInMemoryAdjacentMatrix (Some upstreamModule))) usedByEdge (dependencyVertex exampleLib))
   \<and> fmlookup (snd (graph_AddModule quoteASCII NewInMemoryAdjacentMatrix (Some upstreamModule)))
        requiredForEdge = fmlookup NewInMemoryAdjacentMatrix requiredForEdge
   \<and> fmlookup (snd (graph_AddModule quoteASCII NewInMemoryAdjacentMatrix (Some upstreamModule)))
        requireEdge = fmlookup NewInMemoryAdjacentMatrix requireEdge"
    using C5_edge_duality [OF valid_up dep_up, of NewInMemoryAdjacentMatrix] up all_up
    unfolding Let_def version_up by (elim exE conjE) simp
  have second: "dependencyVertex exampleProtobuf \<in> set (Get (snd (graph_AddModule quoteASCII
        NewInMemoryAdjacentMatrix (Some downstreamModule))) requiredForEdge
        (moduleVertex downstreamModule exampleVersion))
   \<and> moduleVertex downstreamModule exampleVersion \<in> set (Get (snd (graph_AddModule quoteASCII
        NewInMemoryAdjacentMatrix (Some downstreamModule))) requireEdge
        (dependencyVertex exampleProtobuf))
   \<and> fmlookup (snd (graph_AddModule quoteASCII NewInMemoryAdjacentMatrix (Some downstreamModule)))
        dependsOnEdge = fmlookup NewInMemoryAdjacentMatrix dependsOnEdge
   \<and> fmlookup (snd (graph_AddModule quoteASCII NewInMemoryAdjacentMatrix (Some downstreamModule)))
        usedByEdge = fmlookup NewInMemoryAdjacentMatrix usedByEdge"
    using C5_edge_duality [OF valid_down dep_down, of NewInMemoryAdjacentMatrix] down all_down
    unfolding Let_def version_down by (elim exE conjE) simp
  show ?thesis
    using valid_up dep_up up first valid_down dep_down down second by blast
qed

text \<open>
  C9. \<^verbatim>\<open>graph.AddModule\<close> is not idempotent. For a valid record \<open>m\<close> with a dependency
  \<open>D\<close>, two calls with \<open>m\<close> both return nil and the second changes the matrix again: it
  appends the edge pair of \<open>D\<close> a second time. After the second call the child list of
  the vertex of \<open>m\<close> under depends-on holds the vertex of \<open>D\<close> at least twice, and more
  often than after the first call; likewise the vertex of \<open>m\<close> in used-by of \<open>D\<close>. For a
  DOWNSTREAM dependency the pair is required-for and require.
\<close>

theorem C9_AddModule_not_idempotent:
  assumes valid: "Module_Validate quote m = None"
    and dep: "D \<in> set (Dependencies m)"
  shows "\<exists>version. Module.Version m = Some version \<and>
    (let p = moduleVertex m version;
         v = dependencyVertex D;
         a1 = snd (graph_AddModule quote a (Some m));
         a2 = snd (graph_AddModule quote a1 (Some m))
     in fst (graph_AddModule quote a (Some m)) = None
      \<and> fst (graph_AddModule quote a1 (Some m)) = None
      \<and> a2 \<noteq> a1
      \<and> (if isUpstream D
         then 2 \<le> count_list (Get a2 dependsOnEdge p) v
            \<and> count_list (Get a1 dependsOnEdge p) v < count_list (Get a2 dependsOnEdge p) v
            \<and> 2 \<le> count_list (Get a2 usedByEdge v) p
            \<and> count_list (Get a1 usedByEdge v) p < count_list (Get a2 usedByEdge v) p
         else 2 \<le> count_list (Get a2 requiredForEdge p) v
            \<and> count_list (Get a1 requiredForEdge p) v < count_list (Get a2 requiredForEdge p) v
            \<and> 2 \<le> count_list (Get a2 requireEdge v) p
            \<and> count_list (Get a1 requireEdge v) p < count_list (Get a2 requireEdge v) p))"
proof -
  obtain version where version: "Module.Version m = Some version"
    using Module_Validate_Version [OF valid] by blast
  define p where "p = moduleVertex m version"
  define v where "v = dependencyVertex D"
  define ds where "ds = Dependencies m"
  define a1 where "a1 = snd (graph_AddModule quote a (Some m))"
  define a2 where "a2 = snd (graph_AddModule quote a1 (Some m))"
  have run: "graph_AddModule quote c (Some m) = (None, foldl (addDependency p) c ds)" for c
    unfolding p_def ds_def by (rule graph_AddModule_valid [OF valid version])
  have a1: "a1 = foldl (addDependency p) a ds"
    by (simp add: a1_def run)
  have a2: "a2 = foldl (addDependency p) a1 ds"
    by (simp add: a2_def run)
  have dep': "D \<in> set ds"
    using dep by (simp add: ds_def)
  have counts: "if isUpstream D
         then 2 \<le> count_list (Get a2 dependsOnEdge p) v
            \<and> count_list (Get a1 dependsOnEdge p) v < count_list (Get a2 dependsOnEdge p) v
            \<and> 2 \<le> count_list (Get a2 usedByEdge v) p
            \<and> count_list (Get a1 usedByEdge v) p < count_list (Get a2 usedByEdge v) p
         else 2 \<le> count_list (Get a2 requiredForEdge p) v
            \<and> count_list (Get a1 requiredForEdge p) v < count_list (Get a2 requiredForEdge p) v
            \<and> 2 \<le> count_list (Get a2 requireEdge v) p
            \<and> count_list (Get a1 requireEdge v) p < count_list (Get a2 requireEdge v) p"
  proof (cases "isUpstream D")
    case True
    define U where "U = map dependencyVertex (filter isUpstream ds)"
    define k where "k = length (filter (\<lambda>d. isUpstream d \<and> dependencyVertex d = v) ds)"
    have "v \<in> set U"
      using dep' True by (auto simp: v_def U_def)
    then have one: "1 \<le> count_list U v"
      using count_list_0_iff [of U v] by linarith
    have "filter (\<lambda>d. isUpstream d \<and> dependencyVertex d = v) ds \<noteq> []"
      using dep' True by (auto simp: filter_empty_conv v_def)
    then have two: "1 \<le> k"
      by (simp add: k_def Suc_le_eq)
    have lists: "Get a1 dependsOnEdge p = Get a dependsOnEdge p @ U"
      "Get a2 dependsOnEdge p = Get a1 dependsOnEdge p @ U"
      "Get a1 usedByEdge v = Get a usedByEdge v @ replicate k p"
      "Get a2 usedByEdge v = Get a1 usedByEdge v @ replicate k p"
      by (simp_all add: a2 a1 foldl_addDependency_dependsOn foldl_addDependency_usedBy U_def k_def)
    have "2 \<le> count_list (Get a2 dependsOnEdge p) v"
      and "count_list (Get a1 dependsOnEdge p) v < count_list (Get a2 dependsOnEdge p) v"
      and "2 \<le> count_list (Get a2 usedByEdge v) p"
      and "count_list (Get a1 usedByEdge v) p < count_list (Get a2 usedByEdge v) p"
      using one two by (simp_all add: lists count_list_replicate_same)
    with True show ?thesis by simp
  next
    case False
    define U where "U = map dependencyVertex (filter (\<lambda>d. \<not> isUpstream d) ds)"
    define k where "k = length (filter (\<lambda>d. \<not> isUpstream d \<and> dependencyVertex d = v) ds)"
    have "v \<in> set U"
      using dep' False by (auto simp: v_def U_def)
    then have one: "1 \<le> count_list U v"
      using count_list_0_iff [of U v] by linarith
    have "filter (\<lambda>d. \<not> isUpstream d \<and> dependencyVertex d = v) ds \<noteq> []"
      using dep' False by (auto simp: filter_empty_conv v_def)
    then have two: "1 \<le> k"
      by (simp add: k_def Suc_le_eq)
    have lists: "Get a1 requiredForEdge p = Get a requiredForEdge p @ U"
      "Get a2 requiredForEdge p = Get a1 requiredForEdge p @ U"
      "Get a1 requireEdge v = Get a requireEdge v @ replicate k p"
      "Get a2 requireEdge v = Get a1 requireEdge v @ replicate k p"
      by (simp_all add: a2 a1 foldl_addDependency_requiredFor foldl_addDependency_require
          U_def k_def)
    have "2 \<le> count_list (Get a2 requiredForEdge p) v"
      and "count_list (Get a1 requiredForEdge p) v < count_list (Get a2 requiredForEdge p) v"
      and "2 \<le> count_list (Get a2 requireEdge v) p"
      and "count_list (Get a1 requireEdge v) p < count_list (Get a2 requireEdge v) p"
      using one two by (simp_all add: lists count_list_replicate_same)
    with False show ?thesis by simp
  qed
  have differ: "a2 \<noteq> a1"
    using counts by (cases "isUpstream D") auto
  have "fst (graph_AddModule quote a (Some m)) = None"
    and "fst (graph_AddModule quote a1 (Some m)) = None"
    by (simp_all add: run)
  with differ counts show ?thesis
    unfolding version p_def v_def a1_def a2_def Let_def by blast
qed

theorem C9_AddModule_not_idempotent_witness:
  "Module_Validate quoteASCII exampleModule = None
   \<and> exampleLib \<in> set (Dependencies exampleModule)
   \<and> isUpstream exampleLib
   \<and> Get (snd (graph_AddModule quoteASCII (snd (graph_AddModule quoteASCII
        NewInMemoryAdjacentMatrix (Some exampleModule))) (Some exampleModule)))
        dependsOnEdge (moduleVertex exampleModule exampleVersion)
      = [dependencyVertex exampleLib, dependencyVertex exampleLib]
   \<and> 2 \<le> count_list (Get (snd (graph_AddModule quoteASCII (snd (graph_AddModule quoteASCII
        NewInMemoryAdjacentMatrix (Some exampleModule))) (Some exampleModule)))
        dependsOnEdge (moduleVertex exampleModule exampleVersion)) (dependencyVertex exampleLib)"
proof -
  have valid: "Module_Validate quoteASCII exampleModule = None"
    by (rule exampleModule_valid)
  have dep: "exampleLib \<in> set (Dependencies exampleModule)"
    by (simp add: exampleModule_def)
  have up: "isUpstream exampleLib"
    by (simp add: isUpstream_def exampleLib_def)
  have version: "Module.Version exampleModule = Some exampleVersion"
    by (simp add: exampleModule_def)
  have deps: "Dependencies exampleModule = [exampleLib, exampleProtobuf]"
    by (simp add: exampleModule_def)
  have down: "\<not> isUpstream exampleProtobuf"
    by (simp add: isUpstream_def exampleProtobuf_def)
  have lists: "Get (snd (graph_AddModule quoteASCII (snd (graph_AddModule quoteASCII
        NewInMemoryAdjacentMatrix (Some exampleModule))) (Some exampleModule)))
        dependsOnEdge (moduleVertex exampleModule exampleVersion)
      = [dependencyVertex exampleLib, dependencyVertex exampleLib]"
    by (simp add: graph_AddModule_valid [OF valid version] foldl_addDependency_dependsOn
        deps up down del: foldl.simps)
       (simp add: Get_def NewInMemoryAdjacentMatrix_def)
  show ?thesis
    using C9_AddModule_not_idempotent [OF valid dep, of NewInMemoryAdjacentMatrix] valid dep up lists
    unfolding Let_def version by auto
qed

section \<open>Properties of the in-memory repository\<close>

text \<open>The record found under an identity tuple, if any.\<close>

lemma inMemoryRepository_GetModule_present:
  "fst (inMemoryRepository_GetModule data ns nm ty ver) \<noteq> None
    \<longleftrightarrow> inMemoryRepository_GetModule data ns nm ty ver \<noteq> (None, Some (Error ''not found''))"
  by (simp add: inMemoryRepository_GetModule_def split: option.splits)

lemma inMemoryRepository_GetModule_AddModule:
  assumes "Module_Validate quote x = None" and "Module.Version x = Some version"
  shows "inMemoryRepository_GetModule (snd (inMemoryRepository_AddModule quote data (Some x))) ns nm ty ver =
    (if (ns, nm, ty, ver) = (Module.Namespace x, Module.Name x, Module.Type x, ModuleVersion.Name version)
     then (Some x, None) else inMemoryRepository_GetModule data ns nm ty ver)"
  using assms
  by (simp add: inMemoryRepository_AddModule_def inMemoryRepository_GetModule_def Let_def
      split: option.splits)









text \<open>
  C7. For every record \<open>m\<close> that the validator accepts, \<^verbatim>\<open>AddModule(m)\<close> on the
  in-memory repository returns nil, and \<^verbatim>\<open>GetModule\<close> on the identity tuple of \<open>m\<close>
  (namespace, name, type, name of the version block) then returns a record equal to \<open>m\<close>
  in all fields, with a nil error.
\<close>

theorem C7_inMemory_roundtrip:
  assumes valid: "Module_Validate quote m = None"
  shows "\<exists>version. Module.Version m = Some version
    \<and> fst (inMemoryRepository_AddModule quote data (Some m)) = None
    \<and> inMemoryRepository_GetModule (snd (inMemoryRepository_AddModule quote data (Some m)))
        (Module.Namespace m) (Module.Name m) (Module.Type m) (ModuleVersion.Name version)
      = (Some m, None)"
proof -
  obtain version where version: "Module.Version m = Some version"
    using Module_Validate_Version [OF valid] by blast
  have "fst (inMemoryRepository_AddModule quote data (Some m)) = None"
    using valid version by (simp add: inMemoryRepository_AddModule_def Let_def)
  moreover have "inMemoryRepository_GetModule (snd (inMemoryRepository_AddModule quote data (Some m)))
        (Module.Namespace m) (Module.Name m) (Module.Type m) (ModuleVersion.Name version)
      = (Some m, None)"
    by (simp add: inMemoryRepository_GetModule_AddModule [OF valid version])
  ultimately show ?thesis
    using version by blast
qed

theorem C7_inMemory_roundtrip_witness:
  "Module_Validate quoteASCII exampleModule = None
   \<and> fst (inMemoryRepository_AddModule quoteASCII NewInMemoryRepository (Some exampleModule)) = None
   \<and> inMemoryRepository_GetModule
        (snd (inMemoryRepository_AddModule quoteASCII NewInMemoryRepository (Some exampleModule)))
        ''com.example'' ''product'' ''go'' ''v1.0.0''
      = (Some exampleModule, None)"
proof -
  have valid: "Module_Validate quoteASCII exampleModule = None"
    by (rule exampleModule_valid)
  have fields: "Module.Version exampleModule = Some exampleVersion"
    "Module.Namespace exampleModule = ''com.example''" "Module.Name exampleModule = ''product''"
    "Module.Type exampleModule = ''go''" "ModuleVersion.Name exampleVersion = ''v1.0.0''"
    by (simp_all add: exampleModule_def exampleVersion_def)
  show ?thesis
    using C7_inMemory_roundtrip [OF valid, of NewInMemoryRepository] valid
    by (auto simp: fields)
qed

section \<open>Properties of the traversals\<close>

lemma diamondGraph_Get:
  "Get diamondGraph dependsOnEdge (goVertex ''app'') = [goVertex ''util'', goVertex ''lib'']"
  "Get diamondGraph dependsOnEdge (goVertex ''lib'') = [goVertex ''util'']"
  "Get diamondGraph dependsOnEdge (goVertex ''util'') = []"
  by (simp_all add: diamondGraph_def graph_AddModule_def goModule_def goDependency_def
      exampleVersion_def validate_defs addDependency_def moduleVertex_def dependencyVertex_def
      Get_AddEdge goVertex_def dependsOnEdge_def usedByEdge_def Let_def)
     (simp_all add: Get_def NewInMemoryAdjacentMatrix_def)

text \<open>
  C1 (the code at the failing input). In the graph of \<^verbatim>\<open>app\<close>, \<^verbatim>\<open>lib\<close> and \<^verbatim>\<open>util\<close>,
  the depth-first traversal of depends-on from \<^verbatim>\<open>app\<close> with a visitor that always
  returns true calls the visitor four times, twice for \<^verbatim>\<open>util\<close>: once with parent
  \<^verbatim>\<open>lib\<close> and once with parent \<^verbatim>\<open>app\<close>. The vertex is pushed by \<^verbatim>\<open>app\<close> and again by
  \<^verbatim>\<open>lib\<close> before it is popped and marked. The breadth-first traversal of the same graph
  calls the visitor once for each of the three vertices.
\<close>

theorem C1_DFS_visits_twice:
  "fst (traverseDFS diamondGraph dependsOnEdge (goVertex ''app'') continueDFS ()) =
     [(emptyVertex, goVertex ''app''), (goVertex ''app'', goVertex ''lib''),
      (goVertex ''lib'', goVertex ''util''), (goVertex ''app'', goVertex ''util'')]
   \<and> count_list (map snd (fst (traverseDFS diamondGraph dependsOnEdge (goVertex ''app'')
        continueDFS ()))) (goVertex ''util'') = 2
   \<and> map fst (fst (traverseBFS diamondGraph dependsOnEdge (goVertex ''app'') continueBFS ())) =
     [goVertex ''app'', goVertex ''util'', goVertex ''lib'']"
proof -
  have distinct: "goVertex ''app'' \<noteq> goVertex ''lib''" "goVertex ''app'' \<noteq> goVertex ''util''"
    "goVertex ''lib'' \<noteq> goVertex ''util''" "goVertex ''lib'' \<noteq> goVertex ''app''"
    "goVertex ''util'' \<noteq> goVertex ''app''" "goVertex ''util'' \<noteq> goVertex ''lib''"
    by (simp_all add: goVertex_def)
  have dfs: "fst (traverseDFS diamondGraph dependsOnEdge (goVertex ''app'') continueDFS ()) =
     [(emptyVertex, goVertex ''app''), (goVertex ''app'', goVertex ''lib''),
      (goVertex ''lib'', goVertex ''util''), (goVertex ''app'', goVertex ''util'')]"
    by (simp add: traverseDFS_def traverseDFS_loop.simps Pop_def Push_def pushChildren_eq
        diamondGraph_Get continueDFS_def distinct)
  have bfs: "map fst (fst (traverseBFS diamondGraph dependsOnEdge (goVertex ''app'') continueBFS ())) =
     [goVertex ''app'', goVertex ''util'', goVertex ''lib'']"
    by (simp add: traverseBFS_def traverseBFS_loop.simps diamondGraph_Get continueBFS_def distinct)
  show ?thesis
    unfolding dfs using bfs distinct by simp
qed

lemma traverseDFS_loop_empty: "traverseDFS_loop a edgeName fn visited [] st = ([], st)"
  by (simp add: traverseDFS_loop.simps Pop_def)

lemma traverseDFS_loop_step:
  "traverseDFS_loop a edgeName fn visited (stack @ [(p, v)]) st =
     (if \<not> fst (fn st p v) then ([(p, v)], snd (fn st p v))
      else (let later = traverseDFS_loop a edgeName fn (insert v visited)
                  (stack @ map (Pair v) (filter (\<lambda>c. c \<notin> insert v visited) (Get a edgeName v)))
                  (snd (fn st p v))
            in ((p, v) # fst later, snd later)))"
  by (subst traverseDFS_loop.simps) (simp add: Pop_def pushChildren_eq Let_def)

lemma traverseDFS_loop_first:
  "\<exists>later. fst (traverseDFS_loop a edgeName fn visited (stack @ [(p, v)]) st) = (p, v) # later"
  by (simp add: traverseDFS_loop_step Let_def)

lemma traverseDFS_loop_second:
  assumes ok: "fst (fn st p v)"
    and unseen: "filter (\<lambda>c. c \<notin> insert v visited) (Get a edgeName v) \<noteq> []"
  shows "\<exists>later. fst (traverseDFS_loop a edgeName fn visited (stack @ [(p, v)]) st) =
      (p, v) # (v, last (filter (\<lambda>c. c \<notin> insert v visited) (Get a edgeName v))) # later"
proof -
  define unseen where "unseen = filter (\<lambda>c. c \<notin> insert v visited) (Get a edgeName v)"
  have nonempty: "unseen \<noteq> []"
    using unseen by (simp add: unseen_def)
  have "map (Pair v) unseen = map (Pair v) (butlast unseen @ [last unseen])"
    using nonempty by simp
  then have "map (Pair v) unseen = map (Pair v) (butlast unseen) @ [(v, last unseen)]"
    by simp
  then have pushed: "stack @ map (Pair v) unseen =
      (stack @ map (Pair v) (butlast unseen)) @ [(v, last unseen)]"
    by simp
  have "\<exists>later. fst (traverseDFS_loop a edgeName fn (insert v visited)
      ((stack @ map (Pair v) (butlast unseen)) @ [(v, last unseen)]) (snd (fn st p v)))
      = (v, last unseen) # later"
    by (rule traverseDFS_loop_first)
  then obtain later where "fst (traverseDFS_loop a edgeName fn (insert v visited)
      (stack @ map (Pair v) unseen) (snd (fn st p v))) = (v, last unseen) # later"
    unfolding pushed by blast
  then show ?thesis
    using ok by (simp add: traverseDFS_loop_step [of a edgeName fn visited stack] Let_def
        unseen_def)
qed

text \<open>
  C6. For every graph, edge relation, start vertex and visitor, the depth-first traversal
  calls the visitor first with the empty vertex as parent and the start vertex. Each step
  of the loop pops the top pair \<open>(p, v)\<close>, marks \<open>v\<close>, calls the visitor with \<open>(p, v)\<close>
  and, if the visitor returns true, goes on with the stack on which the children of \<open>v\<close>
  that are not marked have been pushed in their order, each with \<open>v\<close> as parent. The stack
  is last-in first-out: when the visitor returns true and \<open>v\<close> has an unmarked child,
  the next call of the visitor is for the last of these children, with parent \<open>v\<close>. For
  the traversal as a whole: when the first call returns true and the start vertex has a
  child other than itself, the second call is for the last-declared such child, with the
  start vertex as parent.
\<close>

theorem C6_DFS_order:
  "fst (traverseDFS a edgeName s fn st) \<noteq> []
   \<and> hd (fst (traverseDFS a edgeName s fn st)) = (emptyVertex, s)
   \<and> traverseDFS_loop a edgeName fn visited (stack @ [(p, v)]) st =
       (if \<not> fst (fn st p v) then ([(p, v)], snd (fn st p v))
        else (let later = traverseDFS_loop a edgeName fn (insert v visited)
                    (stack @ map (Pair v) (filter (\<lambda>c. c \<notin> insert v visited) (Get a edgeName v)))
                    (snd (fn st p v))
              in ((p, v) # fst later, snd later)))
   \<and> (fst (fn st p v) \<and> filter (\<lambda>c. c \<notin> insert v visited) (Get a edgeName v) \<noteq> [] \<longrightarrow>
        (\<exists>later. fst (traverseDFS_loop a edgeName fn visited (stack @ [(p, v)]) st) =
           (p, v) # (v, last (filter (\<lambda>c. c \<notin> insert v visited) (Get a edgeName v))) # later))
   \<and> (fst (fn st emptyVertex s) \<and> filter (\<lambda>c. c \<noteq> s) (Get a edgeName s) \<noteq> [] \<longrightarrow>
        (\<exists>later. fst (traverseDFS a edgeName s fn st) =
           (emptyVertex, s) # (s, last (filter (\<lambda>c. c \<noteq> s) (Get a edgeName s))) # later))"
proof -
  obtain later where first: "fst (traverseDFS a edgeName s fn st) = (emptyVertex, s) # later"
    using traverseDFS_loop_first [of a edgeName fn "{}" "[]" emptyVertex s st]
    by (auto simp: traverseDFS_def Push_def)
  have whole: "\<exists>later. fst (traverseDFS a edgeName s fn st) =
      (emptyVertex, s) # (s, last (filter (\<lambda>c. c \<noteq> s) (Get a edgeName s))) # later"
    if "fst (fn st emptyVertex s)" and "filter (\<lambda>c. c \<noteq> s) (Get a edgeName s) \<noteq> []"
    using traverseDFS_loop_second [of fn st emptyVertex s "{}" a edgeName "[]"] that
    by (simp add: traverseDFS_def Push_def)
  show ?thesis
    using first whole traverseDFS_loop_second [of fn st p v visited a edgeName stack]
      traverseDFS_loop_step [of a edgeName fn visited stack p v st]
    by simp
qed

theorem C6_DFS_order_witness:
  "fst (continueDFS () emptyVertex (goVertex ''app''))
   \<and> filter (\<lambda>c. c \<notin> insert (goVertex ''app'') {})
        (Get diamondGraph dependsOnEdge (goVertex ''app'')) = [goVertex ''util'', goVertex ''lib'']
   \<and> (\<exists>later. fst (traverseDFS_loop diamondGraph dependsOnEdge continueDFS {}
          ([] @ [(emptyVertex, goVertex ''app'')]) ()) =
        (emptyVertex, goVertex ''app'') # (goVertex ''app'', goVertex ''lib'') # later)
   \<and> (\<exists>later. fst (traverseDFS diamondGraph dependsOnEdge (goVertex ''app'') continueDFS ()) =
        (emptyVertex, goVertex ''app'') # (goVertex ''app'', goVertex ''lib'') # later)"
proof -
  have ok: "fst (continueDFS () emptyVertex (goVertex ''app''))"
    by (simp add: continueDFS_def)
  have unseen: "filter (\<lambda>c. c \<notin> insert (goVertex ''app'') {})
        (Get diamondGraph dependsOnEdge (goVertex ''app'')) = [goVertex ''util'', goVertex ''lib'']"
    by (simp add: diamondGraph_Get) (simp add: goVertex_def)
  have unseen': "filter (\<lambda>c. c \<noteq> goVertex ''app'')
        (Get diamondGraph dependsOnEdge (goVertex ''app'')) = [goVertex ''util'', goVertex ''lib'']"
    using unseen by simp
  have next_call: "fst (continueDFS () emptyVertex (goVertex ''app''))
      \<and> filter (\<lambda>c. c \<notin> insert (goVertex ''app'') {})
          (Get diamondGraph dependsOnEdge (goVertex ''app'')) \<noteq> [] \<longrightarrow>
      (\<exists>later. fst (traverseDFS_loop diamondGraph dependsOnEdge continueDFS {}
          ([] @ [(emptyVertex, goVertex ''app'')]) ()) =
        (emptyVertex, goVertex ''app'') #
        (goVertex ''app'', last (filter (\<lambda>c. c \<notin> insert (goVertex ''app'') {})
          (Get diamondGraph dependsOnEdge (goVertex ''app'')))) # later)"
    and whole: "fst (continueDFS () emptyVertex (goVertex ''app''))
      \<and> filter (\<lambda>c. c \<noteq> goVertex ''app'')
          (Get diamondGraph dependsOnEdge (goVertex ''app'')) \<noteq> [] \<longrightarrow>
      (\<exists>later. fst (traverseDFS diamondGraph dependsOnEdge (goVertex ''app'') continueDFS ()) =
        (emptyVertex, goVertex ''app'') #
        (goVertex ''app'', last (filter (\<lambda>c. c \<noteq> goVertex ''app'')
          (Get diamondGraph dependsOnEdge (goVertex ''app'')))) # later)"
    using C6_DFS_order [of diamondGraph dependsOnEdge "goVertex ''app''" continueDFS "()" "{}" "[]"
        emptyVertex "goVertex ''app''"]
    by blast+
  have first: "\<exists>later. fst (traverseDFS_loop diamondGraph dependsOnEdge continueDFS {}
          ([] @ [(emptyVertex, goVertex ''app'')]) ()) =
        (emptyVertex, goVertex ''app'') # (goVertex ''app'', goVertex ''lib'') # later"
    using next_call ok unseen by simp
  have second: "\<exists>later. fst (traverseDFS diamondGraph dependsOnEdge (goVertex ''app'') continueDFS ()) =
        (emptyVertex, goVertex ''app'') # (goVertex ''app'', goVertex ''lib'') # later"
    using whole ok unseen' by simp
  show ?thesis
    using ok unseen first second by blast
qed

section \<open>The error of AddModule on the empty record\<close>

lemma showInt_one: "showInt 1 = ''1''"
proof -
  have "char_of (49::nat) = CHR ''1''"
    by code_simp
  then show ?thesis
    by (simp add: showInt_def showNat.simps)
qed

lemma Module_Validate_emptyModule:
  "Module_Validate quote emptyModule = Some ''namespace: must have at least 1 characters''"
  by (simp add: emptyModule_def Module_Validate_def validateModuleNamespace_def
      mustHaveMinMaxLength_def showInt_one)

text \<open>
  C4 (as stated, refuted). \<^verbatim>\<open>graph.AddModule(&spec.Module{})\<close> on a new graph returns
  the error \<^verbatim>\<open>module validation failed: namespace: must have at least 1 characters\<close>.
  That message does not start with
  \<^verbatim>\<open>validation failed: namespace: must have at least 1 characters\<close>: it starts with the
  word \<^verbatim>\<open>module\<close>, as the tests of the graph and of the repositories expect.
\<close>

theorem C4_empty_module_counterexample:
  "errorMessage (fst (graph_AddModule quoteASCII NewInMemoryAdjacentMatrix (Some emptyModule)))
     = ''module validation failed: namespace: must have at least 1 characters''
   \<and> \<not> prefix ''validation failed: namespace: must have at least 1 characters''
        (errorMessage (fst (graph_AddModule quoteASCII NewInMemoryAdjacentMatrix (Some emptyModule))))"
  by (simp add: graph_AddModule_def Module_Validate_emptyModule)

text \<open>
  C4 (amended). \<^verbatim>\<open>AddModule\<close> applied to the empty module record returns a validation
  error whose message is exactly
  \<^verbatim>\<open>module validation failed: namespace: must have at least 1 characters\<close>, and changes
  nothing, on the graph and on the in-memory repository alike, whatever their state.
  The message starts with \<^verbatim>\<open>module validation failed: namespace: must have at least 1
  characters\<close>, and the string of the specification is the rest after the word
  \<^verbatim>\<open>module\<close> and a space.
\<close>

theorem C4_empty_module:
  "graph_AddModule quote a (Some emptyModule) =
     (Some (Error ''module validation failed: namespace: must have at least 1 characters''), a)
   \<and> inMemoryRepository_AddModule quote data (Some emptyModule) =
     (Some (Error ''module validation failed: namespace: must have at least 1 characters''), data)
   \<and> prefix ''module validation failed: namespace: must have at least 1 characters''
        (errorMessage (fst (graph_AddModule quote a (Some emptyModule))))
   \<and> errorMessage (fst (graph_AddModule quote a (Some emptyModule))) =
        ''module '' @ ''validation failed: namespace: must have at least 1 characters''"
  by (simp add: graph_AddModule_def inMemoryRepository_AddModule_def Module_Validate_emptyModule)

subsection \<open>Bounds on the number of iterations\<close>

lemma traverseBFS_loop_Nil: "traverseBFS_loop a edgeName fn visited [] st = ([], st)"
  by (simp add: traverseBFS_loop.simps)

lemma traverseBFS_loop_Cons:
  "traverseBFS_loop a edgeName fn visited (qv # rest) st =
     (if \<not> fst (fn st qv (Get a edgeName qv))
      then ([(qv, Get a edgeName qv)], snd (fn st qv (Get a edgeName qv)))
      else (let later = traverseBFS_loop a edgeName fn
                  (fst (enqueueChildren visited (qv # rest) (Get a edgeName qv)))
                  (tl (snd (enqueueChildren visited (qv # rest) (Get a edgeName qv))))
                  (snd (fn st qv (Get a edgeName qv)))
            in ((qv, Get a edgeName qv) # fst later, snd later)))"
  by (subst traverseBFS_loop.simps) (simp add: Let_def)

text \<open>
  While the queue holds distinct marked vertices, the vertices the breadth-first loop
  visits are distinct, and each is in the queue or an unmarked child of the relation.
\<close>

lemma traverseBFS_loop_vertices:
  assumes "distinct queue" and "set queue \<subseteq> visited"
  shows "distinct (map fst (fst (traverseBFS_loop a edgeName fn visited queue st)))
    \<and> set (map fst (fst (traverseBFS_loop a edgeName fn visited queue st)))
        \<subseteq> set queue \<union> (allChildren a edgeName - visited)"
  using assms
proof (induction a edgeName fn visited queue st rule: traverseBFS_loop.induct)
  case (1 a edgeName fn visited queue st)
  show ?case
  proof (cases queue)
    case Nil
    then show ?thesis by (simp add: traverseBFS_loop_Nil)
  next
    case (Cons qv rest)
    define children where "children = Get a edgeName qv"
    define st' where "st' = snd (fn st qv children)"
    show ?thesis
    proof (cases "fst (fn st qv children)")
      case False
      then show ?thesis
        using Cons by (simp add: traverseBFS_loop_Cons children_def)
    next
      case True
      obtain new where new: "enqueueChildren visited queue children = (visited \<union> set children, queue @ new)"
        and distinct_new: "distinct new" and set_new: "set new = set children - visited"
        using enqueueChildren_result by blast
      define visited' where "visited' = visited \<union> set children"
      define queue' where "queue' = rest @ new"
      have fst_eq: "fst (enqueueChildren visited queue children) = visited'"
        unfolding new by (simp add: visited'_def)
      have tl_eq: "tl (snd (enqueueChildren visited queue children)) = queue'"
        unfolding new using Cons by (simp add: queue'_def)
      have distinct': "distinct queue'"
        using "1.prems" Cons distinct_new set_new by (auto simp: queue'_def)
      have subset': "set queue' \<subseteq> visited'"
        using "1.prems" Cons set_new by (auto simp: queue'_def visited'_def)
      have IH: "distinct (map fst (fst (traverseBFS_loop a edgeName fn visited' queue' st')))
        \<and> set (map fst (fst (traverseBFS_loop a edgeName fn visited' queue' st')))
            \<subseteq> set queue' \<union> (allChildren a edgeName - visited')"
        using "1.IH" [OF Cons children_def refl st'_def _ fst_eq [symmetric] tl_eq [symmetric]]
          True distinct' subset'
        by simp
      have unfold: "fst (traverseBFS_loop a edgeName fn visited (qv # rest) st) =
          (qv, children) # fst (traverseBFS_loop a edgeName fn visited' queue' st')"
        using True fst_eq tl_eq unfolding Cons
        by (simp add: traverseBFS_loop_Cons Let_def children_def st'_def)
      have children_sub: "set children \<subseteq> allChildren a edgeName"
        by (simp add: children_def Get_subset_allChildren)
      have qv_visited: "qv \<in> visited" and qv_rest: "qv \<notin> set rest"
        using "1.prems" Cons by auto
      have later_sub: "set (map fst (fst (traverseBFS_loop a edgeName fn visited' queue' st')))
          \<subseteq> set rest \<union> (allChildren a edgeName - visited)"
        using IH set_new children_sub by (auto simp: queue'_def visited'_def)
      then have "qv \<notin> set (map fst (fst (traverseBFS_loop a edgeName fn visited' queue' st')))"
        using qv_visited qv_rest by blast
      then show ?thesis
        unfolding Cons unfold using IH later_sub by auto
    qed
  qed
qed

lemma traverseBFS_distinct:
  "distinct (map fst (fst (traverseBFS a edgeName s fn st)))"
  unfolding traverseBFS_def using traverseBFS_loop_vertices [of "[s]" "{s}" a edgeName fn st] by simp

lemma traverseBFS_length:
  "length (fst (traverseBFS a edgeName s fn st)) \<le> 1 + card (allChildren a edgeName)"
proof -
  let ?vs = "map fst (fst (traverseBFS a edgeName s fn st))"
  have "set ?vs \<subseteq> insert s (allChildren a edgeName)"
    unfolding traverseBFS_def
    using traverseBFS_loop_vertices [of "[s]" "{s}" a edgeName fn st] by auto
  then have "card (set ?vs) \<le> card (insert s (allChildren a edgeName))"
    by (simp add: card_mono finite_allChildren)
  also have "\<dots> \<le> 1 + card (allChildren a edgeName)"
    by (simp add: card_insert_if finite_allChildren)
  finally have "card (set ?vs) \<le> 1 + card (allChildren a edgeName)" .
  moreover have "card (set ?vs) = length ?vs"
    using traverseBFS_distinct by (rule distinct_card)
  ultimately show ?thesis by simp
qed

text \<open>The invariant of the stack holds at the start and after every step of the loop.\<close>

lemma stackInvariant_start: "stackInvariant a edgeName {} stack"
  unfolding stackInvariant_def by (intro allI impI) (simp only: empty_iff)

lemma stackInvariantD:
  assumes "stackInvariant a edgeName visited (lower @ (q, u) # upper)"
    and "u \<in> visited" and "c \<in> set (Get a edgeName u)" and "c \<notin> visited"
  shows "c \<in> snd ` set upper"
proof -
  have "\<forall>lower' q' u' upper'. lower @ (q, u) # upper = lower' @ (q', u') # upper' \<longrightarrow>
        u' \<in> visited \<longrightarrow>
        (\<forall>c \<in> set (Get a edgeName u'). c \<notin> visited \<longrightarrow> c \<in> snd ` set upper')"
    using assms(1) unfolding stackInvariant_def .
  then have "lower @ (q, u) # upper = lower @ (q, u) # upper \<longrightarrow> u \<in> visited \<longrightarrow>
        (\<forall>c \<in> set (Get a edgeName u). c \<notin> visited \<longrightarrow> c \<in> snd ` set upper)"
    by (elim allE)
  then show ?thesis
    using assms(2-4) by simp
qed

lemma stackInvariant_top:
  assumes inv: "stackInvariant a edgeName visited (stack @ [(p, v)])" and marked: "v \<in> visited"
  shows "filter (\<lambda>c. c \<notin> visited) (Get a edgeName v) = []"
proof -
  have "c \<in> visited" if "c \<in> set (Get a edgeName v)" for c
  proof (rule ccontr)
    assume "c \<notin> visited"
    then have "c \<in> snd ` set []"
      using stackInvariantD [OF inv marked that] by simp
    then show False by simp
  qed
  then show ?thesis
    by (simp add: filter_empty_conv)
qed

lemma stackInvariant_step:
  assumes inv: "stackInvariant a edgeName visited (stack @ [(p, v)])"
  shows "stackInvariant a edgeName (insert v visited)
    (stack @ map (Pair v) (filter (\<lambda>c. c \<notin> insert v visited) (Get a edgeName v)))"
  unfolding stackInvariant_def
proof (intro allI impI ballI)
  fix lower q u upper c
  define pushed where
    "pushed = map (Pair v) (filter (\<lambda>c. c \<notin> insert v visited) (Get a edgeName v))"
  assume "stack @ map (Pair v) (filter (\<lambda>c. c \<notin> insert v visited) (Get a edgeName v))
      = lower @ (q, u) # upper"
  then have split: "stack @ pushed = lower @ (q, u) # upper"
    by (simp only: pushed_def)
  assume marked: "u \<in> insert v visited"
    and child: "c \<in> set (Get a edgeName u)"
    and unmarked: "c \<notin> insert v visited"
  have pushed_unmarked: "w \<notin> insert v visited" if "(r, w) \<in> set pushed" for r w
    using that by (auto simp: pushed_def)
  have not_pushed: "(q, u) \<notin> set pushed"
    using marked pushed_unmarked by blast
  obtain us where
    cases: "stack = lower @ us \<and> us @ pushed = (q, u) # upper
      \<or> stack @ us = lower \<and> pushed = us @ (q, u) # upper"
    using split unfolding append_eq_append_conv2 by blast
  have "\<exists>rest. stack = lower @ (q, u) # rest \<and> upper = rest @ pushed"
    using cases
  proof
    assume left: "stack = lower @ us \<and> us @ pushed = (q, u) # upper"
    show ?thesis
    proof (cases us)
      case Nil
      with left have "pushed = (q, u) # upper"
        by simp
      then have "(q, u) \<in> set pushed"
        by simp
      with not_pushed show ?thesis
        by simp
    next
      case (Cons e rest)
      with left have "e = (q, u)" and "upper = rest @ pushed" and "stack = lower @ e # rest"
        by simp_all
      then show ?thesis
        by simp
    qed
  next
    assume "stack @ us = lower \<and> pushed = us @ (q, u) # upper"
    then have "(q, u) \<in> set pushed"
      by simp
    with not_pushed show ?thesis
      by simp
  qed
  then obtain rest where stack: "stack = lower @ (q, u) # rest" and upper: "upper = rest @ pushed"
    by blast
  show "c \<in> snd ` set upper"
  proof (cases "u = v")
    case True
    then have "(v, c) \<in> set pushed"
      using child unmarked by (simp add: pushed_def)
    then have "c \<in> snd ` set pushed"
      by force
    then show ?thesis
      by (simp add: upper image_Un)
  next
    case False
    then have u_marked: "u \<in> visited"
      using marked by simp
    have c_unmarked: "c \<notin> visited"
      using unmarked by simp
    have "stackInvariant a edgeName visited (lower @ (q, u) # (rest @ [(p, v)]))"
      using inv by (simp add: stack)
    then have "c \<in> snd ` set (rest @ [(p, v)])"
      using u_marked child c_unmarked by (rule stackInvariantD)
    then have "c \<in> snd ` set rest"
      using unmarked by auto
    then show ?thesis
      by (simp add: upper image_Un)
  qed
qed

lemma Get_outside_innerKeys: "v \<notin> innerKeys a edgeName \<Longrightarrow> Get a edgeName v = []"
  using Get_subset_innerKeys by blast

lemma finite_innerKeys: "finite (innerKeys a edgeName)"
  by (simp add: innerKeys_def split: option.splits)

lemma length_filter_filter_le: "length (filter P (filter Q xs)) \<le> length (filter P xs)"
  by (induction xs) auto

lemma pendingEdges_insert:
  assumes "v \<notin> visited"
  shows "length (filter P (filter (\<lambda>c. c \<notin> insert v visited) (Get a edgeName v)))
      + pendingEdges P a edgeName (insert v visited) \<le> pendingEdges P a edgeName visited"
proof (cases "v \<in> innerKeys a edgeName")
  case True
  then have keys: "innerKeys a edgeName - visited
      = insert v (innerKeys a edgeName - insert v visited)"
    using assms by auto
  have "pendingEdges P a edgeName visited
      = length (filter P (Get a edgeName v)) + pendingEdges P a edgeName (insert v visited)"
    unfolding pendingEdges_def keys by (simp add: finite_innerKeys)
  moreover have "length (filter P (filter (\<lambda>c. c \<notin> insert v visited) (Get a edgeName v)))
      \<le> length (filter P (Get a edgeName v))"
    by (rule length_filter_filter_le)
  ultimately show ?thesis by simp
next
  case False
  then have "innerKeys a edgeName - insert v visited = innerKeys a edgeName - visited"
    by auto
  then show ?thesis
    using False by (simp add: pendingEdges_def Get_outside_innerKeys)
qed

text \<open>
  The calls of the depth-first loop for vertices that satisfy \<open>P\<close> are bounded by the
  entries of the stack for such vertices and the pending edges to them.
\<close>

lemma traverseDFS_loop_count:
  assumes "stackInvariant a edgeName visited stack"
  shows "length (filter P (map snd (fst (traverseDFS_loop a edgeName fn visited stack st))))
    \<le> length (filter P (map snd stack)) + pendingEdges P a edgeName visited"
  using assms
proof (induction a edgeName fn visited stack st rule: traverseDFS_loop.induct)
  case (1 a edgeName fn visited stack st)
  show ?case
  proof (cases stack rule: rev_cases)
    case Nil
    then show ?thesis by (simp add: traverseDFS_loop_empty)
  next
    case (snoc stack' top)
    obtain p v where top: "top = (p, v)"
      by (cases top)
    have stack: "stack = stack' @ [(p, v)]"
      using snoc top by simp
    define unseen where "unseen = filter (\<lambda>c. c \<notin> insert v visited) (Get a edgeName v)"
    define st' where "st' = snd (fn st p v)"
    show ?thesis
    proof (cases "fst (fn st p v)")
      case False
      then show ?thesis
        unfolding stack by (simp add: traverseDFS_loop_step)
    next
      case True
      have pop: "Pop stack = Some (p, v, stack')"
        by (simp add: stack Pop_def)
      have pushed: "pushChildren (insert v visited) stack' v (Get a edgeName v)
          = stack' @ map (Pair v) unseen"
        by (simp add: pushChildren_eq unseen_def)
      have inv': "stackInvariant a edgeName (insert v visited) (stack' @ map (Pair v) unseen)"
        unfolding unseen_def
        by (rule stackInvariant_step [of a edgeName visited stack' p v])
           (use "1.prems" stack in simp)
      have IH: "length (filter P (map snd (fst (traverseDFS_loop a edgeName fn (insert v visited)
            (stack' @ map (Pair v) unseen) st'))))
          \<le> length (filter P (map snd (stack' @ map (Pair v) unseen)))
            + pendingEdges P a edgeName (insert v visited)"
        using "1.IH" [OF pop refl refl refl refl st'_def _ refl pushed [symmetric]] True inv'
        by simp
      have pushed_count: "length (filter P (map snd (map (Pair v) unseen))) = length (filter P unseen)"
        by (simp add: comp_def)
      have potential: "length (filter P unseen) + pendingEdges P a edgeName (insert v visited)
          \<le> pendingEdges P a edgeName visited"
      proof (cases "v \<in> visited")
        case False
        then show ?thesis
          unfolding unseen_def by (rule pendingEdges_insert)
      next
        case True
        then have "unseen = []"
          using stackInvariant_top [of a edgeName visited stack' p v] "1.prems" stack
          by (simp add: unseen_def insert_absorb)
        with True show ?thesis
          by (simp add: insert_absorb)
      qed
      have unfold: "fst (traverseDFS_loop a edgeName fn visited (stack' @ [(p, v)]) st) =
          (p, v) # fst (traverseDFS_loop a edgeName fn (insert v visited)
            (stack' @ map (Pair v) unseen) st')"
        using True by (simp add: traverseDFS_loop_step Let_def unseen_def st'_def)
      show ?thesis
        unfolding stack unfold using IH potential pushed_count by auto
    qed
  qed
qed

lemma traverseDFS_count:
  "length (filter P (map snd (fst (traverseDFS a edgeName s fn st))))
    \<le> (if P s then 1 else 0) + pendingEdges P a edgeName {}"
  unfolding traverseDFS_def
  using traverseDFS_loop_count [OF stackInvariant_start, of P a edgeName fn "Push [] emptyVertex s" st]
  by (cases "P s") (simp_all add: Push_def)

text \<open>
  C10. Both traversals are defined by well-founded recursion on the state of their
  loop, for every matrix (its maps are finite), edge relation, start vertex and visitor,
  so every run ends. The number of iterations is the number of visitor calls, and it is
  bounded: the breadth-first traversal visits distinct vertices (a vertex is enqueued at
  most once), at most one more than the relation has child vertices; the depth-first
  traversal visits a vertex at most once for each edge into it, plus once for the start
  vertex, and makes at most one more call than the relation has edges.
\<close>

theorem C10_traversals_terminate:
  "distinct (map fst (fst (traverseBFS a edgeName s bfsFn bfsSt)))
   \<and> length (fst (traverseBFS a edgeName s bfsFn bfsSt)) \<le> 1 + card (allChildren a edgeName)
   \<and> count_list (map snd (fst (traverseDFS a edgeName s dfsFn dfsSt))) v
       \<le> inDegree a edgeName v + (if v = s then 1 else 0)
   \<and> length (fst (traverseDFS a edgeName s dfsFn dfsSt)) \<le> 1 + numberOfChildEdges a edgeName"
proof -
  have dfs_vertex: "length (filter ((=) v) (map snd (fst (traverseDFS a edgeName s dfsFn dfsSt))))
      \<le> (if v = s then 1 else 0) + pendingEdges ((=) v) a edgeName {}"
    by (rule traverseDFS_count [of "(=) v" a edgeName s dfsFn dfsSt])
  have pending_vertex: "pendingEdges ((=) v) a edgeName {} = inDegree a edgeName v"
    unfolding pendingEdges_def inDegree_def count_list_eq_length_filter by simp
  have count: "count_list (map snd (fst (traverseDFS a edgeName s dfsFn dfsSt))) v
      = length (filter ((=) v) (map snd (fst (traverseDFS a edgeName s dfsFn dfsSt))))"
    by (rule count_list_eq_length_filter)
  have vertex: "count_list (map snd (fst (traverseDFS a edgeName s dfsFn dfsSt))) v
       \<le> inDegree a edgeName v + (if v = s then 1 else 0)"
    unfolding count using dfs_vertex pending_vertex by linarith
  have dfs_all: "length (filter (\<lambda>x. True) (map snd (fst (traverseDFS a edgeName s dfsFn dfsSt))))
      \<le> (if True then 1 else 0) + pendingEdges (\<lambda>x. True) a edgeName {}"
    by (rule traverseDFS_count [of "\<lambda>x. True" a edgeName s dfsFn dfsSt])
  have pending_all: "pendingEdges (\<lambda>x. True) a edgeName {} = numberOfChildEdges a edgeName"
    unfolding pendingEdges_def numberOfChildEdges_def by simp
  have total: "length (fst (traverseDFS a edgeName s dfsFn dfsSt)) \<le> 1 + numberOfChildEdges a edgeName"
    using dfs_all unfolding pending_all by simp
  have bfs_distinct: "distinct (map fst (fst (traverseBFS a edgeName s bfsFn bfsSt)))"
    by (rule traverseBFS_distinct)
  have bfs_length: "length (fst (traverseBFS a edgeName s bfsFn bfsSt)) \<le> 1 + card (allChildren a edgeName)"
    by (rule traverseBFS_length)
  show ?thesis
    using bfs_distinct bfs_length vertex total by (intro conjI)
qed

section \<open>Properties of the file repository\<close>

lemma splitOn_nonempty: "splitOn sep s \<noteq> []"
  by (induction s) (auto split: list.splits)

lemma splitOn_free: "e \<in> set (splitOn sep s) \<Longrightarrow> sep \<notin> set e"
  by (induction s arbitrary: e) (auto split: list.splits if_splits)

lemma splitOn_single: "sep \<notin> set e \<Longrightarrow> splitOn sep e = [e]"
  by (induction e) auto

lemma splitOn_append: "sep \<notin> set e \<Longrightarrow> splitOn sep (e @ sep # rest) = e # splitOn sep rest"
  by (induction e) auto



lemma Stat_empty: "Stat fs [] = Inl ENOENT"
  by (simp add: Stat_def)

text \<open>
  \<^verbatim>\<open>cleanup\<close> changes nothing and returns nil, whatever the path and the file system:
  a path without a colon is one element of the list, the sub-path of the elements before
  it is the empty string, and \<^verbatim>\<open>os.Stat\<close> of the empty string reports that it does not
  exist; with a colon the loop does not run.
\<close>

lemma cleanup_nothing:
  assumes "path \<noteq> []"
  shows "cleanup fs path = (None, fs)"
proof -
  have split: "SplitList path = splitOn (CHR '':'') path"
    using assms by (simp add: SplitList_def)
  have "splitOn (CHR '':'') path \<noteq> []"
    by (rule splitOn_nonempty)
  then have positive: "0 < length (SplitList path)"
    by (simp add: split)
  show ?thesis
  proof (cases "length (SplitList path) = 1")
    case True
    then show ?thesis
      by (simp add: cleanup_def Let_def Join_def Stat_empty IsNotExist_def)
  next
    case False
    with positive have "1 < length (SplitList path)"
      by linarith
    then show ?thesis
      by (simp add: cleanup_def Let_def)
  qed
qed

text \<open>The paths and the states of the example.\<close>

lemma example_paths:
  "Clean (Join [''/data'', modulesDirectory]) = ''/data/modules''"
  "getAbsoluteModuleTypeDirectoryPath dataModules ''com.example'' ''product'' ''go''
     = ''/data/modules/com.example/product/go''"
  "getAbsoluteModuleFilePath dataModules ''com.example'' ''product'' ''go'' ''v1.0.0''
     = ''/data/modules/com.example/product/go/v1.0.0.module.bin''"
  "getAbsoluteModuleFilePath dataModules ''com.example/product'' ''go'' [] ''v1.0.0''
     = ''/data/modules/com.example/product/go/v1.0.0.module.bin''"
  by (simp_all add: getAbsoluteModuleTypeDirectoryPath_def getAbsoluteModuleFilePath_def
      dataModules_def modulesDirectory_def moduleFileExtension_def Join_def Clean_def)

lemma example_ancestors:
  "ancestorsOf ''/data/modules'' = [''/'', ''/data'', ''/data/modules'']"
  "ancestorsOf ''/data/modules/com.example/product/go'' =
     [''/'', ''/data'', ''/data/modules'', ''/data/modules/com.example'',
      ''/data/modules/com.example/product'', ''/data/modules/com.example/product/go'']"
  "properAncestors ''/data/modules/com.example/product/go/v1.0.0.module.bin'' =
     [''/'', ''/data'', ''/data/modules'', ''/data/modules/com.example'',
      ''/data/modules/com.example/product'', ''/data/modules/com.example/product/go'']"
  "properAncestors ''/data/modules/com.example/product/go/v1.0.0.module.bin.lock'' =
     [''/'', ''/data'', ''/data/modules'', ''/data/modules/com.example'',
      ''/data/modules/com.example/product'', ''/data/modules/com.example/product/go'']"
  "properAncestors ''/data/modules/com.example/product/go'' =
     [''/'', ''/data'', ''/data/modules'', ''/data/modules/com.example'',
      ''/data/modules/com.example/product'']"
  "properAncestors ''/data/modules/com.example/product'' =
     [''/'', ''/data'', ''/data/modules'', ''/data/modules/com.example'']"
  "properAncestors ''/data/modules/com.example'' = [''/'', ''/data'', ''/data/modules'']"
  "properAncestors ''/data/modules'' = [''/'', ''/data'']"
  by (simp_all add: ancestorsOf_def properAncestors_def)

lemma storedModule_valid: "Module_Validate quote storedModule = None"
  by (simp add: storedModule_def exampleVersion_def validate_defs)

lemma diskWithRepository_eq:
  "NewFileRepository emptyDisk ''/data'' = (Inr dataModules, diskWithRepository)"
  "diskWithRepository =
     fmupd ''/data/modules'' Directory (fmupd ''/data'' Directory (fmupd ''/'' Directory fmempty))"
  by (simp_all add: diskWithRepository_def NewFileRepository_def example_paths MkdirAll_def
      example_ancestors emptyDisk_def isRegularFile_def dataModules_def Let_def)

lemma diskWithModule_eq:
  "fileRepository_AddModule quoteASCII dataModules diskWithRepository (Some storedModule)
     = (None, diskWithModule)"
  "diskWithModule =
     fmupd ''/data/modules/com.example/product/go/v1.0.0.module.bin''
       (RegularFile (ProtoBytes storedModule))
     (fmupd ''/data/modules/com.example/product/go/v1.0.0.module.bin.lock''
       (RegularFile (OtherBytes []))
     (fmupd ''/data/modules/com.example/product/go'' Directory
     (fmupd ''/data/modules/com.example/product'' Directory
     (fmupd ''/data/modules/com.example'' Directory diskWithRepository))))"
proof -
  have fields: "Module.Namespace storedModule = ''com.example''"
    "Module.Name storedModule = ''product''" "Module.Type storedModule = ''go''"
    "Module.Version storedModule = Some exampleVersion"
    "ModuleVersion.Name exampleVersion = ''v1.0.0''"
    by (simp_all add: storedModule_def exampleVersion_def)
  have run: "fileRepository_AddModule quoteASCII dataModules diskWithRepository (Some storedModule)
     = (None,
     fmupd ''/data/modules/com.example/product/go/v1.0.0.module.bin''
       (RegularFile (ProtoBytes storedModule))
     (fmupd ''/data/modules/com.example/product/go/v1.0.0.module.bin.lock''
       (RegularFile (OtherBytes []))
     (fmupd ''/data/modules/com.example/product/go'' Directory
     (fmupd ''/data/modules/com.example/product'' Directory
     (fmupd ''/data/modules/com.example'' Directory diskWithRepository)))))"
    by (simp add: fileRepository_AddModule_def storedModule_valid fields example_paths
        MkdirAll_def example_ancestors diskWithRepository_eq(2) isRegularFile_def tryLock_def
        newFileLock_def WriteFile_def Stat_def isDirectory_def Let_def)
  show "fileRepository_AddModule quoteASCII dataModules diskWithRepository (Some storedModule)
     = (None, diskWithModule)"
    by (simp add: diskWithModule_def run)
  show "diskWithModule =
     fmupd ''/data/modules/com.example/product/go/v1.0.0.module.bin''
       (RegularFile (ProtoBytes storedModule))
     (fmupd ''/data/modules/com.example/product/go/v1.0.0.module.bin.lock''
       (RegularFile (OtherBytes []))
     (fmupd ''/data/modules/com.example/product/go'' Directory
     (fmupd ''/data/modules/com.example/product'' Directory
     (fmupd ''/data/modules/com.example'' Directory diskWithRepository))))"
    by (simp add: diskWithModule_def run)
qed

lemma Stat_diskWithModule:
  "Stat diskWithModule ''/data/modules/com.example/product/go/v1.0.0.module.bin''
     = Inr (RegularFile (ProtoBytes storedModule))"
  by (simp add: Stat_def example_ancestors diskWithModule_eq(2) diskWithRepository_eq(2)
      isRegularFile_def)

lemma diskAfterDelete_eq:
  "fileRepository_DeleteModuleVersion dataModules diskWithModule
      ''com.example'' ''product'' ''go'' ''v1.0.0'' = (None, diskAfterDelete)"
  "diskAfterDelete =
     fmdrop ''/data/modules/com.example/product/go/v1.0.0.module.bin'' diskWithModule"
proof -
  have run: "fileRepository_DeleteModuleVersion dataModules diskWithModule
      ''com.example'' ''product'' ''go'' ''v1.0.0''
    = (None, fmdrop ''/data/modules/com.example/product/go/v1.0.0.module.bin'' diskWithModule)"
    by (simp add: fileRepository_DeleteModuleVersion_def example_paths Stat_diskWithModule
        Remove_def cleanup_nothing)
  show "fileRepository_DeleteModuleVersion dataModules diskWithModule
      ''com.example'' ''product'' ''go'' ''v1.0.0'' = (None, diskAfterDelete)"
    by (simp add: diskAfterDelete_def run)
  show "diskAfterDelete =
     fmdrop ''/data/modules/com.example/product/go/v1.0.0.module.bin'' diskWithModule"
    by (simp add: diskAfterDelete_def run)
qed

text \<open>
  C2 (the code at the failing input). A repository is created under \<^verbatim>\<open>/data\<close> on a disk
  that holds only the root directory, the record \<^verbatim>\<open>com.example:product:go:v1.0.0\<close> is
  added and \<^verbatim>\<open>DeleteModuleVersion\<close> is called with its identity. All calls return nil.
  The record file is gone, but the directories of the type, of the name and of the
  namespace are all still there: \<^verbatim>\<open>cleanup\<close> removed nothing. (The lock file of the
  record is still in the type directory as well.) The modules directory remains.
\<close>

theorem C2_DeleteModuleVersion_prunes_nothing:
  "NewFileRepository emptyDisk ''/data'' = (Inr ''/data/modules'', diskWithRepository)
   \<and> fileRepository_AddModule quoteASCII ''/data/modules'' diskWithRepository (Some storedModule)
       = (None, diskWithModule)
   \<and> fileRepository_DeleteModuleVersion ''/data/modules'' diskWithModule
        ''com.example'' ''product'' ''go'' ''v1.0.0'' = (None, diskAfterDelete)
   \<and> Stat diskAfterDelete ''/data/modules/com.example/product/go/v1.0.0.module.bin'' = Inl ENOENT
   \<and> Stat diskAfterDelete ''/data/modules/com.example/product/go'' = Inr Directory
   \<and> Stat diskAfterDelete ''/data/modules/com.example/product'' = Inr Directory
   \<and> Stat diskAfterDelete ''/data/modules/com.example'' = Inr Directory
   \<and> Stat diskAfterDelete ''/data/modules'' = Inr Directory
   \<and> cleanup diskAfterDelete ''/data/modules/com.example/product/go'' = (None, diskAfterDelete)"
proof -
  have stats: "Stat diskAfterDelete ''/data/modules/com.example/product/go/v1.0.0.module.bin'' = Inl ENOENT"
    "Stat diskAfterDelete ''/data/modules/com.example/product/go'' = Inr Directory"
    "Stat diskAfterDelete ''/data/modules/com.example/product'' = Inr Directory"
    "Stat diskAfterDelete ''/data/modules/com.example'' = Inr Directory"
    "Stat diskAfterDelete ''/data/modules'' = Inr Directory"
    by (simp_all add: Stat_def example_ancestors diskAfterDelete_eq(2) diskWithModule_eq(2)
        diskWithRepository_eq(2) isRegularFile_def)
  have "cleanup diskAfterDelete ''/data/modules/com.example/product/go'' = (None, diskAfterDelete)"
    by (rule cleanup_nothing) simp
  then show ?thesis
    using stats diskWithRepository_eq(1) diskWithModule_eq(1) diskAfterDelete_eq(1)
    by (simp add: dataModules_def)
qed

subsection \<open>GetModule on a tuple that is not stored\<close>

lemma segments_of_joined:
  assumes "\<forall>e \<in> set es. e \<noteq> [] \<and> CHR ''/'' \<notin> set e"
  shows "filter (\<lambda>e. e \<noteq> []) (splitOn (CHR ''/'') (joinSlash es)) = es"
  using assms
proof (induction es rule: joinSlash.induct)
  case 1
  show ?case by simp
next
  case (2 e)
  then show ?case by (simp add: splitOn_single)
next
  case (3 e e' es)
  have "splitOn (CHR ''/'') (joinSlash (e # e' # es))
      = e # splitOn (CHR ''/'') (joinSlash (e' # es))"
    using 3(2) splitOn_append [of "CHR ''/''" e "joinSlash (e' # es)"] by simp
  then show ?case
    using 3 by simp
qed

lemma strict_prefixes:
  assumes "xs \<in> set (butlast (prefixes ys))"
  shows "prefix xs ys \<and> xs \<noteq> ys"
proof -
  have whole: "prefixes ys = butlast (prefixes ys) @ [ys]"
    by (metis append_butlast_last_id last_prefixes prefixes_not_Nil)
  have "distinct (prefixes ys)"
    by (rule distinct_prefixes)
  then have "distinct (butlast (prefixes ys) @ [ys])"
    using whole by simp
  then have "ys \<notin> set (butlast (prefixes ys))"
    by simp
  moreover have "xs \<in> set (prefixes ys)"
    using assms by (rule in_set_butlastD)
  ultimately show ?thesis
    using assms by (auto simp: in_set_prefixes)
qed

text \<open>A path is not among the directories properly above it.\<close>

lemma notin_properAncestors: "p \<notin> set (properAncestors p)"
proof
  define segments where "segments = filter (\<lambda>e. e \<noteq> []) (splitOn (CHR ''/'') p)"
  assume "p \<in> set (properAncestors p)"
  then have "p \<in> (\<lambda>es. CHR ''/'' # joinSlash es) ` set (butlast (prefixes segments))"
    by (simp add: properAncestors_def ancestorsOf_def segments_def map_butlast [symmetric])
  then obtain es where es: "es \<in> set (butlast (prefixes segments))"
    and p: "p = CHR ''/'' # joinSlash es"
    by blast
  have strict: "prefix es segments" "es \<noteq> segments"
    using strict_prefixes [OF es] by simp_all
  have "\<forall>e \<in> set segments. e \<noteq> [] \<and> CHR ''/'' \<notin> set e"
    using splitOn_free by (auto simp: segments_def)
  then have "\<forall>e \<in> set es. e \<noteq> [] \<and> CHR ''/'' \<notin> set e"
    using strict(1) set_mono_prefix by blast
  then have "filter (\<lambda>e. e \<noteq> []) (splitOn (CHR ''/'') (joinSlash es)) = es"
    by (rule segments_of_joined)
  then have "segments = es"
    unfolding segments_def p by simp
  with strict(2) show False
    by simp
qed

lemma lookup_ancestor_fmupd:
  "q \<in> set (properAncestors p) \<Longrightarrow> fmlookup (fmupd p node fs) q = fmlookup fs q"
  using notin_properAncestors by auto

lemma lookup_ancestor_fmdrop:
  "q \<in> set (properAncestors p) \<Longrightarrow> fmlookup (fmdrop p fs) q = fmlookup fs q"
  using notin_properAncestors by auto












end
